theory Spec2Isabelle
  imports Main "HOL-Library.Sublist" "HOL-Library.AList"
begin

section \<open>Shared data: errors, Go strings and Go maps\<close>

text \<open>
  Every Go \<open>error\<close> value that the modelled functions create or pass on. A function that
  returns \<open>error\<close> becomes a function to \<open>error option\<close> (\<open>None\<close> is Go's \<open>nil\<close>); a
  function that returns \<open>(T, error)\<close> becomes a function to \<open>error + T\<close>.
\<close>

datatype error =
    InvalidVariableFormat string    \<comment> \<open>\<open>invalid variable format: %s\<close>\<close>
  | FlagValuesMapNil                \<comment> \<open>\<open>flagValuesMap is nil\<close>\<close>
  | NoDefaultValue string           \<comment> \<open>\<open>IsPromptDisabled is true for %s but no default value was found\<close>\<close>
  | GetConfigError error            \<comment> \<open>\<open>get config: %w\<close>\<close>
  | AzLoginFailed error             \<comment> \<open>\<open>failed to log in to Azure CLI: %v\<close>\<close>
  | RegistryNameInvalid string      \<comment> \<open>\<open>registry name '%s' does not meet ... naming requirements\<close>\<close>
  | RegistryNotFound string error   \<comment> \<open>\<open>failed to find Azure Container Registry %s: %v\<close>\<close>
  | External string                 \<comment> \<open>an error made outside the repository (io/fs, promptui, the sink)\<close>

text \<open>
  A Go \<open>map[string]string\<close> is an association list with distinct keys. \<open>m[k]\<close> reads the
  empty string for a missing key, \<open>m[k] = v\<close> replaces or adds the entry, \<open>maps.Keys\<close> lists
  the keys and \<open>maps.Copy dst src\<close> stores every entry of \<open>src\<close> into \<open>dst\<close>. Go leaves the
  order of a \<open>range\<close> over a map open; the order of the list stands for the order one run
  happens to take.
\<close>

type_synonym gomap = "(string \<times> string) list"

definition index :: "gomap \<Rightarrow> string \<Rightarrow> string" where
  "index m k = (case map_of m k of None \<Rightarrow> [] | Some v \<Rightarrow> v)"

definition assign :: "string \<Rightarrow> string \<Rightarrow> gomap \<Rightarrow> gomap" where
  "assign k v m = AList.update k v m"

definition maps_Keys :: "gomap \<Rightarrow> string list" where
  "maps_Keys m = map fst m"

definition maps_Copy :: "gomap \<Rightarrow> gomap \<Rightarrow> gomap" where
  "maps_Copy dst src = fold (\<lambda>(k, v) d. assign k v d) src dst"

text \<open>
  \<open>strings.Cut(s, "=")\<close>: the text before the first \<open>=\<close>, the text after it, and whether
  there is one. Without a separator Go returns \<open>(s, "", false)\<close>.
\<close>

definition strings_Cut :: "string \<Rightarrow> string \<times> string \<times> bool" where
  "strings_Cut s =
     (if CHR ''='' \<in> set s
      then (takeWhile (\<lambda>c. c \<noteq> CHR ''='') s, tl (dropWhile (\<lambda>c. c \<noteq> CHR ''='') s), True)
      else (s, [], False))"

text \<open>
  \<open>strings.ReplaceAll(s, old, new)\<close> for a non-empty \<open>old\<close>: the occurrences of \<open>old\<close> are
  found from the left, never overlapping, and each is replaced by \<open>new\<close>. The only caller
  passes \<open>"{{" + name + "}}"\<close>, which is never empty; for the empty \<open>old\<close> the model inserts
  \<open>new\<close> before every byte and at the end, which is what Go does on ASCII text.
\<close>

function strings_ReplaceAll :: "string \<Rightarrow> string \<Rightarrow> string \<Rightarrow> string" where
  "strings_ReplaceAll [] old new = (if old = [] then new else [])"
| "strings_ReplaceAll (c # cs) old new =
     (if old = [] then new @ c # strings_ReplaceAll cs old new
      else if prefix old (c # cs)
      then new @ strings_ReplaceAll (drop (length old) (c # cs)) old new
      else c # strings_ReplaceAll cs old new)"
  by pat_completeness auto
termination
  by (relation "measure (\<lambda>(s, old, new). length s)") auto

section \<open>pkg/validations: \<open>Validate\<close>\<close>

text \<open>
  \<open>config.BuilderVar\<close> is declared in \<open>pkg/config\<close>; the record holds the fields that the
  modelled functions read.
\<close>

record BuilderVar =
  Name :: string
  Description :: string
  VarType :: string
  ValidateType :: string

text \<open>
  \<open>validateAzureContainerRegistry\<close> calls \<open>pkg/providers\<close> and the \<open>az\<close> command line.
  Their outcomes are parameters of the model: whether \<open>CheckAzCliInstalled\<close> returns
  (\<open>None\<close>) or stops the process, whether the operator is logged in, what \<open>LogInToAz\<close>
  returns, and what \<open>az acr show --name value\<close> returns.
\<close>

record providers =
  CheckAzCliInstalled :: "error option"
  IsLoggedInToAz :: bool
  LogInToAz :: "error option"
  acrShow :: "string \<Rightarrow> error option"

text \<open>
  The regular expression \<open>^[a-z0-9]{5,50}$\<close>, matched against the whole value. The pattern
  is a constant that compiles, so \<open>regexp.MatchString\<close> returns no error.
\<close>

definition lowerAlnum :: "char \<Rightarrow> bool" where
  "lowerAlnum c =
     ((97 \<le> (of_char c :: nat) \<and> (of_char c :: nat) \<le> 122) \<or>
      (48 \<le> (of_char c :: nat) \<and> (of_char c :: nat) \<le> 57))"

definition matchesRegistryPattern :: "string \<Rightarrow> bool" where
  "matchesRegistryPattern v = (5 \<le> length v \<and> length v \<le> 50 \<and> list_all lowerAlnum v)"

definition validateAzureContainerRegistry :: "providers \<Rightarrow> string \<Rightarrow> error option" where
  "validateAzureContainerRegistry p v =
     (case CheckAzCliInstalled p of
        Some e \<Rightarrow> Some e
      | None \<Rightarrow>
         (case (if IsLoggedInToAz p then None else LogInToAz p) of
            Some e \<Rightarrow> Some (AzLoginFailed e)
          | None \<Rightarrow>
             if \<not> matchesRegistryPattern v then Some (RegistryNameInvalid v)
             else (case acrShow p v of
                     Some e \<Rightarrow> Some (RegistryNotFound v e)
                   | None \<Rightarrow> None)))"

definition validateAzureClusterName :: "string \<Rightarrow> error option" where
  "validateAzureClusterName v = None"

definition validateAzureResourceGroup :: "string \<Rightarrow> error option" where
  "validateAzureResourceGroup v = None"

definition validateContainerName :: "string \<Rightarrow> error option" where
  "validateContainerName v = None"

definition validateDir :: "string \<Rightarrow> error option" where
  "validateDir v = None"

definition validateGitHubBranch :: "string \<Rightarrow> error option" where
  "validateGitHubBranch v = None"

definition Validate :: "providers \<Rightarrow> string \<Rightarrow> BuilderVar \<Rightarrow> string \<Rightarrow> error option" where
  "Validate p name variable v =
     (if ValidateType variable = ''azContainerRegistry'' then validateAzureContainerRegistry p v
      else if ValidateType variable = ''azClusterName'' then validateAzureClusterName v
      else if ValidateType variable = ''azResourceGroup'' then validateAzureResourceGroup v
      else if ValidateType variable = ''containerName'' then validateContainerName v
      else if ValidateType variable = ''dir'' then validateDir v
      else if ValidateType variable = ''ghBranch'' then validateGitHubBranch v
      else None)"

definition knownRules :: "string list" where
  "knownRules =
     [''azContainerRegistry'', ''azClusterName'', ''azResourceGroup'', ''containerName'',
      ''dir'', ''ghBranch'']"

section \<open>pkg/workflows: the workflow configuration\<close>

record WorkflowConfig =
  AcrName :: string
  AcrResourceGroupName :: string
  AksClusterName :: string
  BranchName :: string
  BuildContextPath :: string
  ChartPath :: string
  ChartOverridePath :: string
  ClusterResourceGroupName :: string
  ContainerName :: string

text \<open>\<open>SetFlagValuesToMap\<close>: nine tests in this order, each storing a field that is not empty.\<close>

definition SetFlagValuesToMap :: "WorkflowConfig \<Rightarrow> gomap" where
  "SetFlagValuesToMap config =
     fold (\<lambda>(k, v) flagValuesMap. if v \<noteq> [] then assign k v flagValuesMap else flagValuesMap)
       [(''AZURECONTAINERREGISTRY'', AcrName config),
        (''RESOURCEGROUP'', AcrResourceGroupName config),
        (''CLUSTERNAME'', AksClusterName config),
        (''BRANCHNAME'', BranchName config),
        (''BUILDCONTEXTPATH'', BuildContextPath config),
        (''CHARTPATH'', ChartPath config),
        (''CHARTOVERRIDEPATH'', ChartOverridePath config),
        (''CLUSTERRESOURCEGROUP'', ClusterResourceGroupName config),
        (''CONTAINERNAME'', ContainerName config)]
       []"

text \<open>
  \<open>EnvVar\<close> and \<open>WorkflowEnv\<close>. A field whose Go name is already a field of
  \<open>WorkflowConfig\<close> or \<open>BuilderVar\<close> carries the prefix \<open>Env\<close> or the suffix \<open>Var\<close>.
\<close>

record EnvVar =
  EnvName :: string
  EnvDescription :: string
  DisablePrompt :: bool
  EnvValue :: string
  EnvType :: string

record HelmEnv =
  ChartPathVar :: EnvVar
  ChartOverridePathVar :: EnvVar
  ChartOverrides :: EnvVar

record ManifestEnv =
  DeploymentManifestPath :: EnvVar

record KustomizeEnv =
  KustomizePath :: EnvVar

record WorkflowEnv =
  AcrResourceGroup :: EnvVar
  AzureContainerRegistry :: EnvVar
  BranchNameVar :: EnvVar
  BuildContextPathVar :: EnvVar
  ClusterName :: EnvVar
  ClusterResourceGroup :: EnvVar
  ContainerNameVar :: EnvVar
  PrivateCluster :: EnvVar
  HelmEnvStruct :: HelmEnv
  KustomizeEnvStruct :: KustomizeEnv
  ManifestEnvStruct :: ManifestEnv

definition checkForVal :: "EnvVar \<Rightarrow> gomap \<Rightarrow> gomap" where
  "checkForVal envVar envMap =
     (if EnvValue envVar \<noteq> [] then assign (EnvName envVar) (EnvValue envVar) envMap else envMap)"

definition BuildMap :: "WorkflowEnv \<Rightarrow> gomap" where
  "BuildMap we =
     fold checkForVal
       [AcrResourceGroup we, AzureContainerRegistry we, BranchNameVar we, BuildContextPathVar we,
        ClusterName we, ClusterResourceGroup we, ContainerNameVar we,
        ChartPathVar (HelmEnvStruct we), ChartOverridePathVar (HelmEnvStruct we),
        ChartOverrides (HelmEnvStruct we), KustomizePath (KustomizeEnvStruct we),
        DeploymentManifestPath (ManifestEnvStruct we)]
       []"

section \<open>cmd: the override strings of the \<open>--variable\<close> flag\<close>

text \<open>
  The loop over \<open>flagVariables\<close> that \<open>generateWorkflows\<close> and \<open>createFlagMap\<close> share word for
  word: cut each string at the first \<open>=\<close>, return the format error for the first string
  without one, store the value under the name otherwise. A Go map is a reference, so each
  store changes the map of the caller (the package-level \<open>flagValuesMap\<close>) at once, and an
  early \<open>return\<close> leaves there what the strings before the malformed one stored. The loop
  therefore yields the error, if any, together with the map as it leaves it.
\<close>

fun flagVariables_loop :: "string list \<Rightarrow> gomap \<Rightarrow> error option \<times> gomap" where
  "flagVariables_loop [] flagValuesMap = (None, flagValuesMap)"
| "flagVariables_loop (flagVar # rest) flagValuesMap =
     (case strings_Cut flagVar of
        (flagVarName, flagVarValue, ok) \<Rightarrow>
          if \<not> ok then (Some (InvalidVariableFormat flagVar), flagValuesMap)
          else flagVariables_loop rest (assign flagVarName flagVarValue flagValuesMap))"

text \<open>What one well-formed override string stores: the value under the name.\<close>

definition storeFlag :: "string \<Rightarrow> gomap \<Rightarrow> gomap" where
  "storeFlag flagVar m = assign (fst (strings_Cut flagVar)) (fst (snd (strings_Cut flagVar))) m"

text \<open>
  \<open>createFlagMap\<close>; \<open>nflag\<close> is \<open>cmd.Flags().NFlag()\<close>. The function assigns the package-level
  variable \<open>flagValuesMap\<close> before the loop, and the loop stores into that map. The result is
  the pair of what the function returns (\<open>nil\<close> and the error, or the map) and of the
  package-level map when it returns. Both \<open>make\<close> and \<open>BuildMap\<close> return a map that is not
  \<open>nil\<close>, so the test for \<open>nil\<close> never fires.
\<close>

definition createFlagMap ::
  "nat \<Rightarrow> WorkflowEnv \<Rightarrow> string list \<Rightarrow> (error + gomap) \<times> gomap" where
  "createFlagMap nflag workflowEnv flagVariables =
     (case flagVariables_loop flagVariables (if nflag \<noteq> 0 then BuildMap workflowEnv else []) of
        (Some err, flagValuesMap) \<Rightarrow> (Inl err, flagValuesMap)
      | (None, flagValuesMap) \<Rightarrow> (Inr flagValuesMap, flagValuesMap))"

text \<open>
  The flag map that \<open>RunE\<close> of \<open>newGenerateWorkflowCmd\<close> builds before it calls
  \<open>generateWorkflows\<close>: empty, or the workflow configuration when a flag was given.
\<close>

definition RunE_flagValuesMap :: "nat \<Rightarrow> WorkflowConfig \<Rightarrow> gomap" where
  "RunE_flagValuesMap nflag workflowConfig =
     (if nflag \<noteq> 0 then SetFlagValuesToMap workflowConfig else [])"

section \<open>pkg/prompts: resolving the variables\<close>

text \<open>\<open>config.BuilderVarDefault\<close>; \<open>vdName\<close> is its field \<open>Name\<close>.\<close>

record BuilderVarDefault =
  vdName :: string
  Value :: string
  ReferenceVar :: string
  IsPromptDisabled :: bool

text \<open>
  \<open>config.DraftConfig\<close> is declared in \<open>pkg/config\<close>: the two lists that the resolver reads, and
  what the method \<open>GetNameOverride\<close> returns for a file name.
\<close>

record DraftConfig =
  Variables :: "BuilderVar list"
  VariableDefaults :: "BuilderVarDefault list"
  GetNameOverride :: "string \<Rightarrow> string"

text \<open>
  Modelled from the spec: the prompt library (promptui) is outside the repository. A prompt
  is a request that returns the answer or an error; a string prompt whose validator rejects
  the input asks again, and fails when the input ends (section 4.3). The console holds the
  answers to come (\<open>script\<close>) and the prompts issued so far (\<open>issued\<close>), each with the
  variable it was issued for.
\<close>

datatype prompt =
    VarPrompt BuilderVar string     \<comment> \<open>a prompt for a variable, with its label\<close>
  | SelectPrompt string             \<comment> \<open>a selection that belongs to no variable\<close>

record console =
  script :: "(error + string) list"
  issued :: "prompt list"

fun promptui_Run :: "(string \<Rightarrow> bool) \<Rightarrow> (error + string) list \<Rightarrow>
    (error + string) \<times> (error + string) list" where
  "promptui_Run accepts [] = (Inl (External ''EOF''), [])"
| "promptui_Run accepts (Inl e # rest) = (Inl e, rest)"
| "promptui_Run accepts (Inr s # rest) =
     (if accepts s then (Inr s, rest) else promptui_Run accepts rest)"

definition ask :: "prompt \<Rightarrow> (string \<Rightarrow> bool) \<Rightarrow> console \<Rightarrow> (error + string) \<times> console" where
  "ask p accepts c =
     (case promptui_Run accepts (script c) of
        (r, rest) \<Rightarrow> (r, c\<lparr>script := rest, issued := issued c @ [p]\<rparr>))"

definition RunBoolPrompt :: "BuilderVar \<Rightarrow> console \<Rightarrow> (error + string) \<times> console" where
  "RunBoolPrompt customPrompt c =
     ask (VarPrompt customPrompt (''Please select '' @ Description customPrompt))
       (\<lambda>s. s \<in> set [''true'', ''false'']) c"

definition AllowAllStringValidator :: "string \<Rightarrow> error option" where
  "AllowAllStringValidator s = None"

definition NoBlankStringValidator :: "string \<Rightarrow> error option" where
  "NoBlankStringValidator s =
     (if length s \<le> 0 then Some (External ''input must be greater than 0'') else None)"

text \<open>
  \<open>RunDefaultableStringPrompt\<close>; \<open>validate\<close> is \<open>None\<close> for Go's \<open>nil\<close>. A caller's validator
  is never installed: \<open>validatorFunc\<close> stays \<open>nil\<close> (promptui then accepts every input)
  unless \<open>validate\<close> is \<open>nil\<close> or there is a default.
\<close>

definition RunDefaultableStringPrompt ::
  "BuilderVar \<Rightarrow> string \<Rightarrow> (string \<Rightarrow> error option) option \<Rightarrow> console \<Rightarrow>
     (error + string) \<times> console" where
  "RunDefaultableStringPrompt customPrompt defaultValue validate c =
     (let validatorFunc =
            (if defaultValue \<noteq> [] then Some AllowAllStringValidator
             else if validate = None then Some NoBlankStringValidator else None);
          defaultString =
            (if defaultValue \<noteq> [] then '' (default: '' @ defaultValue @ '')'' else [])
      in case ask (VarPrompt customPrompt
                     (''Please enter '' @ Description customPrompt @ defaultString))
                (\<lambda>s. case validatorFunc of None \<Rightarrow> True | Some f \<Rightarrow> f s = None) c of
           (Inl err, c') \<Rightarrow> (Inl err, c')
         | (Inr input, c') \<Rightarrow>
             (Inr (if input = [] \<and> defaultString \<noteq> [] then defaultValue else input), c'))"

text \<open>
  \<open>GetVariableDefaultValue\<close>: the loop runs over every entry and has no \<open>break\<close>, so each
  entry with the variable's name overwrites \<open>defaultValue\<close>.
\<close>

definition GetVariableDefaultValue :: "string \<Rightarrow> BuilderVarDefault list \<Rightarrow> gomap \<Rightarrow> string" where
  "GetVariableDefaultValue variableName variableDefaults inputs =
     fold (\<lambda>variableDefault defaultValue.
             if vdName variableDefault = variableName
             then (if ReferenceVar variableDefault \<noteq> [] \<and>
                      index inputs (ReferenceVar variableDefault) \<noteq> []
                   then index inputs (ReferenceVar variableDefault)
                   else Value variableDefault)
             else defaultValue)
       variableDefaults []"

fun GetIsPromptDisabled :: "string \<Rightarrow> BuilderVarDefault list \<Rightarrow> bool" where
  "GetIsPromptDisabled variableName [] = False"
| "GetIsPromptDisabled variableName (variableDefault # rest) =
     (if vdName variableDefault = variableName then IsPromptDisabled variableDefault
      else GetIsPromptDisabled variableName rest)"

text \<open>
  The first loop of \<open>RunPromptsFromConfigWithSkipsIO\<close>, over \<open>config.Variables\<close>;
  \<open>skipMap\<close> holds the names of \<open>varsToSkip\<close>.
\<close>

fun RunPrompts_loop ::
  "BuilderVar list \<Rightarrow> BuilderVarDefault list \<Rightarrow> string set \<Rightarrow> gomap \<Rightarrow> console \<Rightarrow>
     (error + gomap) \<times> console" where
  "RunPrompts_loop [] variableDefaults skipMap inputs c = (Inr inputs, c)"
| "RunPrompts_loop (customPrompt # rest) variableDefaults skipMap inputs c =
     (if Name customPrompt \<in> skipMap then RunPrompts_loop rest variableDefaults skipMap inputs c
      else if GetIsPromptDisabled (Name customPrompt) variableDefaults then
        (let noPromptDefaultValue =
               GetVariableDefaultValue (Name customPrompt) variableDefaults inputs
         in if noPromptDefaultValue = [] then (Inl (NoDefaultValue (Name customPrompt)), c)
            else RunPrompts_loop rest variableDefaults skipMap
                   (assign (Name customPrompt) noPromptDefaultValue inputs) c)
      else if VarType customPrompt = ''bool'' then
        (case RunBoolPrompt customPrompt c of
           (Inl err, c') \<Rightarrow> (Inl err, c')
         | (Inr input, c') \<Rightarrow>
             RunPrompts_loop rest variableDefaults skipMap
               (assign (Name customPrompt) input inputs) c')
      else
        (case RunDefaultableStringPrompt customPrompt
                (GetVariableDefaultValue (Name customPrompt) variableDefaults inputs) None c of
           (Inl err, c') \<Rightarrow> (Inl err, c')
         | (Inr stringInput, c') \<Rightarrow>
             RunPrompts_loop rest variableDefaults skipMap
               (assign (Name customPrompt) stringInput inputs) c'))"

text \<open>
  The second loop, over \<open>config.VariableDefaults\<close>: an entry whose name reads the empty
  string in \<open>inputs\<close> stores its literal value there.
\<close>

definition substituteDefaults :: "BuilderVarDefault list \<Rightarrow> gomap \<Rightarrow> gomap" where
  "substituteDefaults variableDefaults inputs =
     fold (\<lambda>variableDefault inputs.
             if index inputs (vdName variableDefault) = []
             then assign (vdName variableDefault) (Value variableDefault) inputs
             else inputs)
       variableDefaults inputs"

definition RunPromptsFromConfigWithSkipsIO ::
  "DraftConfig \<Rightarrow> string list \<Rightarrow> console \<Rightarrow> (error + gomap) \<times> console" where
  "RunPromptsFromConfigWithSkipsIO config varsToSkip c =
     (case RunPrompts_loop (Variables config) (VariableDefaults config) (set varsToSkip) [] c of
        (Inl err, c') \<Rightarrow> (Inl err, c')
      | (Inr inputs, c') \<Rightarrow> (Inr (substituteDefaults (VariableDefaults config) inputs), c'))"

definition RunPromptsFromConfigWithSkips ::
  "DraftConfig \<Rightarrow> string list \<Rightarrow> console \<Rightarrow> (error + gomap) \<times> console" where
  "RunPromptsFromConfigWithSkips config varsToSkip c =
     RunPromptsFromConfigWithSkipsIO config varsToSkip c"

text \<open>The name of the variable a prompt was issued for, if any.\<close>

fun promptedVariable :: "prompt \<Rightarrow> string option" where
  "promptedVariable (VarPrompt customPrompt label) = Some (Name customPrompt)"
| "promptedVariable (SelectPrompt label) = None"

text \<open>
  Two notions for the proofs: a list of prompts none of which was issued for a skipped
  variable, and one step of the second loop.
\<close>

definition unskipped :: "string set \<Rightarrow> prompt list \<Rightarrow> bool" where
  "unskipped skipMap ps =
     (\<forall>p \<in> set ps. case promptedVariable p of None \<Rightarrow> False | Some n \<Rightarrow> n \<notin> skipMap)"

definition defaultStep :: "BuilderVarDefault \<Rightarrow> gomap \<Rightarrow> gomap" where
  "defaultStep variableDefault inputs =
     (if index inputs (vdName variableDefault) = []
      then assign (vdName variableDefault) (Value variableDefault) inputs
      else inputs)"

section \<open>pkg/osutil: materializing a template tree\<close>

text \<open>
  The template file system as \<open>CopyDir\<close> sees it from \<open>src\<close>: an entry is a file with what
  \<open>fs.ReadFile\<close> returns for it, or a directory with what \<open>fs.ReadDir\<close> returns for it (its
  entries in the order \<open>ReadDir\<close> lists them, or the error). An entry that is not a directory
  is read as a file.
\<close>

datatype fsnode =
    File string "error + string"
  | Dir string "error + fsnode list"

fun entryName :: "fsnode \<Rightarrow> string" where
  "entryName (File name content) = name"
| "entryName (Dir name sub) = name"

text \<open>The interface \<open>TemplateWriter\<close>; \<open>'w\<close> is the state of the sink behind it.\<close>

record 'w TemplateWriter =
  WriteFile :: "string \<Rightarrow> string \<Rightarrow> 'w \<Rightarrow> error option \<times> 'w"
  EnsureDirectory :: "string \<Rightarrow> 'w \<Rightarrow> error option \<times> 'w"

text \<open>
  \<open>handleTemplateReplacement\<close>: \<open>file\<close> is what \<open>fs.ReadFile\<close> returned. The \<open>range\<close> over
  \<open>customInputs\<close> replaces one marker after the other in the text that the replacements
  before it produced.
\<close>

definition handleTemplateReplacement :: "error + string \<Rightarrow> gomap \<Rightarrow> error + string" where
  "handleTemplateReplacement file customInputs =
     (case file of
        Inl err \<Rightarrow> Inl err
      | Inr fileString \<Rightarrow>
          Inr (fold (\<lambda>(oldString, newString) fileString.
                       strings_ReplaceAll fileString (''{{'' @ oldString @ ''}}'') newString)
                 customInputs fileString))"

definition checkNameOverrides :: "string \<Rightarrow> DraftConfig option \<Rightarrow> string" where
  "checkNameOverrides fileName config =
     (case config of
        None \<Rightarrow> fileName
      | Some cfg \<Rightarrow>
          if GetNameOverride cfg fileName \<noteq> [] then GetNameOverride cfg fileName @ fileName
          else fileName)"

text \<open>
  \<open>CopyDir\<close>: the first argument is what \<open>fs.ReadDir(fileSys, src)\<close> returned. The function
  returns its error and the state in which it left the sink.
\<close>

function (sequential) CopyDir ::
    "error + fsnode list \<Rightarrow> string \<Rightarrow> DraftConfig option \<Rightarrow> gomap \<Rightarrow> 'w TemplateWriter \<Rightarrow> 'w \<Rightarrow>
       error option \<times> 'w"
  and CopyDir_loop ::
    "fsnode list \<Rightarrow> string \<Rightarrow> DraftConfig option \<Rightarrow> gomap \<Rightarrow> 'w TemplateWriter \<Rightarrow> 'w \<Rightarrow>
       error option \<times> 'w" where
  "CopyDir (Inl err) dest config customInputs templateWriter w = (Some err, w)"
| "CopyDir (Inr files) dest config customInputs templateWriter w =
     CopyDir_loop files dest config customInputs templateWriter w"
| "CopyDir_loop [] dest config customInputs templateWriter w = (None, w)"
| "CopyDir_loop (f # rest) dest config customInputs templateWriter w =
     (if entryName f = ''draft.yaml''
      then CopyDir_loop rest dest config customInputs templateWriter w
      else
        (case f of
           Dir name sub \<Rightarrow>
             (case EnsureDirectory templateWriter (dest @ ''/'' @ name) w of
                (Some err, w1) \<Rightarrow> (Some err, w1)
              | (None, w1) \<Rightarrow>
                  (case CopyDir sub (dest @ ''/'' @ name) config customInputs templateWriter w1 of
                     (Some err, w2) \<Rightarrow> (Some err, w2)
                   | (None, w2) \<Rightarrow>
                       CopyDir_loop rest dest config customInputs templateWriter w2))
         | File name content \<Rightarrow>
             (case handleTemplateReplacement content customInputs of
                Inl err \<Rightarrow> (Some err, w)
              | Inr fileString \<Rightarrow>
                  (case WriteFile templateWriter
                          (dest @ ''/'' @ checkNameOverrides name config) fileString w of
                     (Some err, w1) \<Rightarrow> (Some err, w1)
                   | (None, w1) \<Rightarrow>
                       CopyDir_loop rest dest config customInputs templateWriter w1))))"
  by pat_completeness auto
termination
  by (relation "measure (\<lambda>x. case x of
          Inl (r, d, cf, ci, t, w) \<Rightarrow> size_sum (\<lambda>e. 0) (size_list size) r + 1
        | Inr (fs, d, cf, ci, t, w) \<Rightarrow> size_list size fs)") auto

text \<open>
  \<open>CopyDirToFileMap\<close>: \<open>fileMap\<close> starts empty in every call, and the branch for a directory
  assigns the map that the recursive call returned to \<open>fileMap\<close>.
\<close>

function (sequential) CopyDirToFileMap ::
    "error + fsnode list \<Rightarrow> string \<Rightarrow> DraftConfig option \<Rightarrow> gomap \<Rightarrow> error + gomap"
  and CopyDirToFileMap_loop ::
    "fsnode list \<Rightarrow> string \<Rightarrow> DraftConfig option \<Rightarrow> gomap \<Rightarrow> gomap \<Rightarrow> error + gomap" where
  "CopyDirToFileMap (Inl err) dest config customInputs = Inl err"
| "CopyDirToFileMap (Inr files) dest config customInputs =
     CopyDirToFileMap_loop files dest config customInputs []"
| "CopyDirToFileMap_loop [] dest config customInputs fileMap = Inr fileMap"
| "CopyDirToFileMap_loop (f # rest) dest config customInputs fileMap =
     (if entryName f = ''draft.yaml''
      then CopyDirToFileMap_loop rest dest config customInputs fileMap
      else
        (case f of
           Dir name sub \<Rightarrow>
             (case CopyDirToFileMap sub (dest @ ''/'' @ name) config customInputs of
                Inl err \<Rightarrow> Inl err
              | Inr fileMap' \<Rightarrow> CopyDirToFileMap_loop rest dest config customInputs fileMap')
         | File name content \<Rightarrow>
             (case handleTemplateReplacement content customInputs of
                Inl err \<Rightarrow> Inl err
              | Inr fileString \<Rightarrow>
                  CopyDirToFileMap_loop rest dest config customInputs
                    (assign (dest @ ''/'' @ checkNameOverrides name config) fileString fileMap))))"
  by pat_completeness auto
termination
  by (relation "measure (\<lambda>x. case x of
          Inl (r, d, cf, ci) \<Rightarrow> size_sum (\<lambda>e. 0) (size_list size) r + 1
        | Inr (fs, d, cf, ci, m) \<Rightarrow> size_list size fs)") auto

text \<open>
  A sink that accepts every call and keeps the calls in order: what \<open>CopyDir\<close> hands to any
  sink up to that sink's first failure.
\<close>

datatype sinkcall = WriteFileCall string string | EnsureDirectoryCall string

definition recordingWriter :: "sinkcall list TemplateWriter" where
  "recordingWriter =
     \<lparr>WriteFile = (\<lambda>path data w. (None, w @ [WriteFileCall path data])),
      EnsureDirectory = (\<lambda>path w. (None, w @ [EnsureDirectoryCall path]))\<rparr>"

fun writtenFiles :: "sinkcall list \<Rightarrow> (string \<times> string) list" where
  "writtenFiles [] = []"
| "writtenFiles (WriteFileCall path data # calls) = (path, data) # writtenFiles calls"
| "writtenFiles (EnsureDirectoryCall path # calls) = writtenFiles calls"

text \<open>The template tree without its entries named \<open>draft.yaml\<close>, at every depth.\<close>

fun withoutDraftYaml :: "fsnode list \<Rightarrow> fsnode list" where
  "withoutDraftYaml [] = []"
| "withoutDraftYaml (Dir name (Inr sub) # rest) =
     (if name = ''draft.yaml'' then withoutDraftYaml rest
      else Dir name (Inr (withoutDraftYaml sub)) # withoutDraftYaml rest)"
| "withoutDraftYaml (f # rest) =
     (if entryName f = ''draft.yaml'' then withoutDraftYaml rest else f # withoutDraftYaml rest)"

text \<open>
  For the statements about paths: every entry name of a tree, the last component of a path,
  paths none of which has the last component \<open>draft.yaml\<close>, and trees whose entry names have
  no slash (as the names that \<open>ReadDir\<close> returns).
\<close>

fun allNames :: "fsnode list \<Rightarrow> string list" where
  "allNames [] = []"
| "allNames (File name content # rest) = name # allNames rest"
| "allNames (Dir name (Inl err) # rest) = name # allNames rest"
| "allNames (Dir name (Inr sub) # rest) = name # allNames sub @ allNames rest"

definition baseName :: "string \<Rightarrow> string" where
  "baseName p = rev (takeWhile (\<lambda>c. c \<noteq> CHR ''/'') (rev p))"

definition noDraftYaml :: "string list \<Rightarrow> bool" where
  "noDraftYaml paths = (\<forall>p \<in> set paths. baseName p \<noteq> ''draft.yaml'')"

definition plainNames :: "error + fsnode list \<Rightarrow> bool" where
  "plainNames r = (case r of Inl err \<Rightarrow> True
                   | Inr files \<Rightarrow> \<forall>n \<in> set (allNames files). CHR ''/'' \<notin> set n)"

text \<open>
  A directory without subdirectories (but for one named \<open>draft.yaml\<close>), and the map that
  results from storing a list of written files in order.
\<close>

fun flat :: "fsnode list \<Rightarrow> bool" where
  "flat [] = True"
| "flat (File name content # rest) = flat rest"
| "flat (Dir name sub # rest) = (name = ''draft.yaml'' \<and> flat rest)"

definition storeAll :: "(string \<times> string) list \<Rightarrow> gomap \<Rightarrow> gomap" where
  "storeAll written fileMap = fold (\<lambda>(path, data) m. assign path data m) written fileMap"

section \<open>Template substitution in one pass\<close>

text \<open>
  The substitution as the specification words it, for comparison with
  \<open>handleTemplateReplacement\<close>. The text of the file is read once from the left: where the
  marker \<open>{{name}}\<close> of a resolved name starts, the value of that name is written and the
  marker is passed over; every other character, and so every marker of another name, is
  kept as it is. What is written is not read again.
\<close>

definition marker :: "string \<Rightarrow> string" where
  "marker name = ''{{'' @ name @ ''}}''"

function onePass :: "gomap \<Rightarrow> string \<Rightarrow> string" where
  "onePass customInputs [] = []"
| "onePass customInputs (c # cs) =
     (case find (\<lambda>(name, v). prefix (marker name) (c # cs)) customInputs of
        Some (name, v) \<Rightarrow> v @ onePass customInputs (drop (length (marker name)) (c # cs))
      | None \<Rightarrow> c # onePass customInputs cs)"
  by pat_completeness auto
termination
  by (relation "measure (\<lambda>(customInputs, s). length s)") (auto simp: marker_def)

definition braceFree :: "string \<Rightarrow> bool" where
  "braceFree s = (CHR ''{'' \<notin> set s \<and> CHR ''}'' \<notin> set s)"

text \<open>
  The same substitution on a template that is given by its pieces, plain text and markers:
  every marker whose name is a key of the resolved map becomes that key's value, and every
  other piece stays as it is.
\<close>

datatype piece = Text string | Marker string

fun renderPiece :: "piece \<Rightarrow> string" where
  "renderPiece (Text t) = t"
| "renderPiece (Marker name) = marker name"

definition render :: "piece list \<Rightarrow> string" where
  "render pieces = concat (map renderPiece pieces)"

fun specSubstitute :: "gomap \<Rightarrow> piece \<Rightarrow> piece" where
  "specSubstitute customInputs (Text t) = Text t"
| "specSubstitute customInputs (Marker name) =
     (case map_of customInputs name of None \<Rightarrow> Marker name | Some v \<Rightarrow> Text v)"

text \<open>
  A template is well formed when every \<open>{{\<close> in it opens a marker: no position of a plain
  text can be the start of a marker, whatever follows the text (it has no \<open>{{\<close> and does
  not end in \<open>{\<close>; single braces are free), and the name of a marker has no brace.
\<close>

fun noMarkerStart :: "string \<Rightarrow> bool" where
  "noMarkerStart [] = True"
| "noMarkerStart [c] = (c \<noteq> CHR ''{'')"
| "noMarkerStart (c # d # s) = (\<not> (c = CHR ''{'' \<and> d = CHR ''{'') \<and> noMarkerStart (d # s))"

fun plainPiece :: "piece \<Rightarrow> bool" where
  "plainPiece (Text t) = noMarkerStart t"
| "plainPiece (Marker name) = braceFree name"

definition plainTemplate :: "piece list \<Rightarrow> bool" where
  "plainTemplate pieces = list_all plainPiece pieces"

text \<open>
  A resolved value may hold markers of its own, so a resolved map is given with the pieces
  of each value; \<open>spelled\<close> is the Go map, each value written out. The map is well formed
  when every name is free of braces, every value is a well-formed template, and no value
  holds the marker of a resolved name.
\<close>

definition spelled :: "(string \<times> piece list) list \<Rightarrow> gomap" where
  "spelled resolved = map (\<lambda>(name, valuePieces). (name, render valuePieces)) resolved"

definition plainInputs :: "(string \<times> piece list) list \<Rightarrow> bool" where
  "plainInputs resolved =
     list_all (\<lambda>(name, valuePieces).
                 braceFree name \<and> plainTemplate valuePieces \<and>
                 list_all (\<lambda>(key, other). Marker key \<notin> set valuePieces) resolved)
       resolved"

text \<open>
  The pieces of a template after the substitution: the pieces of a value stand in the place
  of its marker.
\<close>

fun expandPiece :: "(string \<times> piece list) list \<Rightarrow> piece \<Rightarrow> piece list" where
  "expandPiece resolved (Text t) = [Text t]"
| "expandPiece resolved (Marker name) =
     (case map_of resolved name of None \<Rightarrow> [Marker name] | Some valuePieces \<Rightarrow> valuePieces)"

definition expand :: "(string \<times> piece list) list \<Rightarrow> piece list \<Rightarrow> piece list" where
  "expand resolved pieces = concat (map (expandPiece resolved) pieces)"

section \<open>cmd: \<open>generateWorkflows\<close>\<close>

text \<open>
  \<open>promptDeployType\<close>, of the revision of the command that has \<open>createFlagMap\<close>: a deploy
  type given on the command line is kept; without one the user selects it.
\<close>

definition promptDeployType :: "string \<Rightarrow> console \<Rightarrow> (error + string) \<times> console" where
  "promptDeployType deployType c =
     (if deployType = []
      then (case ask (SelectPrompt ''Select k8s Deployment Type'')
                   (\<lambda>s. s \<in> set [''helm'', ''kustomize'', ''manifests'']) c of
              (Inl err, c') \<Rightarrow> (Inl err, c')
            | (Inr selected, c') \<Rightarrow> (Inr selected, c'))
      else (Inr deployType, c))"

text \<open>
  \<open>pkg/workflows\<close> declares \<open>CreateWorkflowsFromEmbedFS\<close> and the two methods of its result
  outside the sources at hand; they are parameters.
\<close>

record 'w Workflows =
  GetConfig :: "string \<Rightarrow> error + DraftConfig"
  CreateWorkflowFiles :: "string \<Rightarrow> gomap \<Rightarrow> 'w TemplateWriter \<Rightarrow> 'w \<Rightarrow> error option \<times> 'w"

text \<open>
  \<open>generateWorkflows\<close>. The argument \<open>flagValuesMap\<close> is the caller's map (\<open>None\<close> is \<open>nil\<close>);
  the loop stores into it, and nothing after the loop does (\<open>maps.Copy\<close> stores into
  \<open>customInputs\<close>). The result holds the returned error, the console, the sink and the
  caller's map as the call leaves it. The selection of the deploy type is written in the
  body of the function, in the words of \<open>promptDeployType\<close>.
\<close>

definition generateWorkflows ::
  "(string \<Rightarrow> 'w Workflows) \<Rightarrow> string \<Rightarrow> string \<Rightarrow> string list \<Rightarrow> 'w TemplateWriter \<Rightarrow>
     gomap option \<Rightarrow> console \<Rightarrow> 'w \<Rightarrow> error option \<times> console \<times> 'w \<times> gomap option" where
  "generateWorkflows CreateWorkflowsFromEmbedFS dest deployType flagVariables templateWriter
       flagValuesMap c w =
     (case flagValuesMap of
        None \<Rightarrow> (Some FlagValuesMapNil, c, w, None)
      | Some fvm \<Rightarrow>
         (case flagVariables_loop flagVariables fvm of
            (Some err, fvm') \<Rightarrow> (Some err, c, w, Some fvm')
          | (None, fvm') \<Rightarrow>
             (case (if deployType = []
                    then ask (SelectPrompt ''Select k8s Deployment Type'')
                           (\<lambda>s. s \<in> set [''helm'', ''kustomize'', ''manifests'']) c
                    else (Inr deployType, c)) of
                (Inl err, c1) \<Rightarrow> (Some err, c1, w, Some fvm')
              | (Inr deployType', c1) \<Rightarrow>
                 (let workflow = CreateWorkflowsFromEmbedFS dest in
                  case GetConfig workflow deployType' of
                    Inl err \<Rightarrow> (Some (GetConfigError err), c1, w, Some fvm')
                  | Inr workflowConfig \<Rightarrow>
                     (case RunPromptsFromConfigWithSkips workflowConfig (maps_Keys fvm') c1 of
                        (Inl err, c2) \<Rightarrow> (Some err, c2, w, Some fvm')
                      | (Inr customInputs, c2) \<Rightarrow>
                         (case CreateWorkflowFiles workflow deployType'
                                 (maps_Copy customInputs fvm') templateWriter w of
                            (r, w') \<Rightarrow> (r, c2, w', Some fvm')))))))"

section \<open>Concrete inputs\<close>

text \<open>Inputs at which the theorems below are evaluated.\<close>

definition azReady :: providers where
  "azReady = \<lparr>CheckAzCliInstalled = None, IsLoggedInToAz = True, LogInToAz = None,
              acrShow = (\<lambda>r. None)\<rparr>"

definition ruleVar :: "string \<Rightarrow> BuilderVar" where
  "ruleVar r = \<lparr>Name = ''V'', Description = ''a value'', VarType = ''string'', ValidateType = r\<rparr>"

definition mixedTree :: "fsnode list" where
  "mixedTree =
     [File ''a.txt'' (Inr ''A''), Dir ''sub'' (Inr [File ''c.txt'' (Inr ''C'')])]"

definition registryFromConfig :: WorkflowConfig where
  "registryFromConfig =
     \<lparr>AcrName = ''fromconfig'', AcrResourceGroupName = [], AksClusterName = [],
      BranchName = [], BuildContextPath = [], ChartPath = [], ChartOverridePath = [],
      ClusterResourceGroupName = [], ContainerName = []\<rparr>"

definition plainEnvVar :: "string \<Rightarrow> EnvVar" where
  "plainEnvVar n =
     \<lparr>EnvName = n, EnvDescription = [], DisablePrompt = False, EnvValue = [], EnvType = []\<rparr>"

definition blankWorkflowEnv :: WorkflowEnv where
  "blankWorkflowEnv =
     \<lparr>AcrResourceGroup = plainEnvVar ''ACR_RESOURCE_GROUP'',
      AzureContainerRegistry = plainEnvVar ''ACR_NAME'',
      BranchNameVar = plainEnvVar ''BRANCH_NAME'',
      BuildContextPathVar = plainEnvVar ''BUILD_CONTEXT_PATH'',
      ClusterName = plainEnvVar ''CLUSTER_NAME'',
      ClusterResourceGroup = plainEnvVar ''CLUSTER_RESOURCE_GROUP'',
      ContainerNameVar = plainEnvVar ''CONTAINER_NAME'',
      PrivateCluster = plainEnvVar ''PRIVATE_CLUSTER'',
      HelmEnvStruct =
        \<lparr>ChartPathVar = plainEnvVar ''CHART_PATH'',
         ChartOverridePathVar = plainEnvVar ''CHART_OVERRIDE_PATH'',
         ChartOverrides = plainEnvVar ''CHART_OVERRIDES''\<rparr>,
      KustomizeEnvStruct = \<lparr>KustomizePath = plainEnvVar ''KUSTOMIZE_PATH''\<rparr>,
      ManifestEnvStruct = \<lparr>DeploymentManifestPath = plainEnvVar ''DEPLOYMENT_MANIFEST_PATH''\<rparr>\<rparr>"

definition noTemplates :: "string \<Rightarrow> sinkcall list Workflows" where
  "noTemplates dest =
     \<lparr>GetConfig = (\<lambda>deployType. Inl (External ''no such deploy type'')),
      CreateWorkflowFiles = (\<lambda>deployType customInputs templateWriter w. (None, w))\<rparr>"

definition quietConsole :: console where
  "quietConsole = \<lparr>script = [], issued = []\<rparr>"

definition refA :: BuilderVarDefault where
  "refA = \<lparr>vdName = ''A'', Value = ''x'', ReferenceVar = [], IsPromptDisabled = False\<rparr>"

definition refB :: BuilderVarDefault where
  "refB = \<lparr>vdName = ''B'', Value = [], ReferenceVar = ''A'', IsPromptDisabled = False\<rparr>"

definition portVar :: BuilderVar where
  "portVar = \<lparr>Name = ''PORT'', Description = ''the port'', VarType = ''string'', ValidateType = []\<rparr>"

definition portConfig :: DraftConfig where
  "portConfig =
     \<lparr>Variables = [portVar],
      VariableDefaults =
        [\<lparr>vdName = ''PORT'', Value = ''8080'', ReferenceVar = [], IsPromptDisabled = False\<rparr>],
      GetNameOverride = (\<lambda>fileName. [])\<rparr>"

definition hostVar :: BuilderVar where
  "hostVar = \<lparr>Name = ''HOST'', Description = ''the host'', VarType = ''string'', ValidateType = []\<rparr>"

definition tagVar :: BuilderVar where
  "tagVar = \<lparr>Name = ''TAG'', Description = ''the tag'', VarType = ''string'', ValidateType = []\<rparr>"

definition tagConfig :: DraftConfig where
  "tagConfig =
     \<lparr>Variables = [portVar, tagVar, hostVar],
      VariableDefaults =
        [\<lparr>vdName = ''PORT'', Value = ''8080'', ReferenceVar = [], IsPromptDisabled = False\<rparr>,
         \<lparr>vdName = ''TAG'', Value = [], ReferenceVar = [], IsPromptDisabled = True\<rparr>],
      GetNameOverride = (\<lambda>fileName. [])\<rparr>"

definition tagWorkflows :: "string \<Rightarrow> sinkcall list Workflows" where
  "tagWorkflows dest =
     \<lparr>GetConfig = (\<lambda>deployType. Inr tagConfig),
      CreateWorkflowFiles =
        (\<lambda>deployType customInputs templateWriter w.
           WriteFile templateWriter (dest @ ''/workflow.yml'') ''on: push'' w)\<rparr>"

definition consoleWith :: "string list \<Rightarrow> prompt list \<Rightarrow> console" where
  "consoleWith answers ps = \<lparr>script = map Inr answers, issued = ps\<rparr>"

definition manifestTree :: "fsnode list" where
  "manifestTree =
     [Dir ''charts'' (Inr [Dir ''draft.yaml'' (Inr [File ''hidden'' (Inr ''x'')]),
                           File ''values.yaml'' (Inr ''port: {{PORT}}'')]),
      File ''draft.yaml'' (Inl (External ''permission denied''))]"

definition listenTemplate :: "piece list" where
  "listenTemplate =
     [Text ''limits: {} listen '', Marker ''FOO'', Text '' on '', Marker ''HOST'', Text '' as '',
      Marker ''AUTH'']"

definition listenInputs :: "(string \<times> piece list) list" where
  "listenInputs =
     [(''OPTS'', [Text ''{}'']), (''FOO'', [Text ''bar'']),
      (''AUTH'', [Text ''$'', Marker '' secrets.KEY ''])]"

definition listenConfig :: DraftConfig where
  "listenConfig =
     \<lparr>Variables = [portVar],
      VariableDefaults =
        [\<lparr>vdName = ''PORT'', Value = ''8080'', ReferenceVar = [], IsPromptDisabled = True\<rparr>],
      GetNameOverride = (\<lambda>fileName. [])\<rparr>"

section \<open>Theorems\<close>

subsection \<open>Validation\<close>

text \<open>
  C9. For every variable and every value, \<open>Validate\<close> with a \<open>ValidateType\<close> that is none
  of the six known rule names returns \<open>nil\<close>, whatever the Azure environment is.
\<close>

theorem C9_unknown_rule_accepted:
  assumes "ValidateType variable \<notin> set knownRules"
  shows "Validate p name variable v = None"
  using assms by (simp add: Validate_def knownRules_def)

theorem C9_unknown_rule_accepted_witness:
  "ValidateType \<lparr>Name = ''PORT'', Description = ''the port'', VarType = ''string'',
                   ValidateType = ''portNumber''\<rparr> \<notin> set knownRules \<and>
   Validate \<lparr>CheckAzCliInstalled = Some (External ''az missing''), IsLoggedInToAz = False,
             LogInToAz = Some (External ''no login''), acrShow = (\<lambda>r. Some (External r))\<rparr>
     ''PORT''
     \<lparr>Name = ''PORT'', Description = ''the port'', VarType = ''string'',
      ValidateType = ''portNumber''\<rparr> ''80 80'' = None"
proof -
  have h: "ValidateType \<lparr>Name = ''PORT'', Description = ''the port'', VarType = ''string'',
                          ValidateType = ''portNumber''\<rparr> \<notin> set knownRules"
    by (simp add: knownRules_def)
  from C9_unknown_rule_accepted [OF h] h show ?thesis by blast
qed

text \<open>
  C10. The validators chosen by \<open>azClusterName\<close>, \<open>azResourceGroup\<close>, \<open>containerName\<close>,
  \<open>dir\<close> and \<open>ghBranch\<close> return \<open>nil\<close> for every value, so \<open>Validate\<close> returns \<open>nil\<close> for
  those five rules, and whenever \<open>Validate\<close> returns an error the rule is
  \<open>azContainerRegistry\<close>.
\<close>

theorem C10_only_registry_rule_fails:
  assumes "ValidateType variable \<in>
             set [''azClusterName'', ''azResourceGroup'', ''containerName'', ''dir'', ''ghBranch'']"
    and "Validate p' name' variable' v' = Some e"
  shows "validateAzureClusterName v = None \<and> validateAzureResourceGroup v = None \<and>
         validateContainerName v = None \<and> validateDir v = None \<and>
         validateGitHubBranch v = None \<and>
         Validate p name variable v = None \<and>
         ValidateType variable' = ''azContainerRegistry''"
proof -
  have five: "validateAzureClusterName v = None \<and> validateAzureResourceGroup v = None \<and>
         validateContainerName v = None \<and> validateDir v = None \<and>
         validateGitHubBranch v = None"
    by (simp add: validateAzureClusterName_def validateAzureResourceGroup_def
        validateContainerName_def validateDir_def validateGitHubBranch_def)
  from assms(1) five have ok: "Validate p name variable v = None"
    by (auto simp: Validate_def)
  have "ValidateType variable' = ''azContainerRegistry''"
  proof (rule ccontr)
    assume "ValidateType variable' \<noteq> ''azContainerRegistry''"
    then have "Validate p' name' variable' v' = None"
      by (simp add: Validate_def validateAzureClusterName_def validateAzureResourceGroup_def
          validateContainerName_def validateDir_def validateGitHubBranch_def)
    with assms(2) show False by simp
  qed
  with five ok show ?thesis by simp
qed

theorem C10_only_registry_rule_fails_witness:
  "ValidateType (ruleVar ''dir'') \<in>
     set [''azClusterName'', ''azResourceGroup'', ''containerName'', ''dir'', ''ghBranch''] \<and>
   Validate azReady ''V'' (ruleVar ''azContainerRegistry'') ''Ab'' =
     Some (RegistryNameInvalid ''Ab'') \<and>
   validateDir ''/no/such/dir'' = None \<and>
   Validate azReady ''V'' (ruleVar ''dir'') ''/no/such/dir'' = None \<and>
   ValidateType (ruleVar ''azContainerRegistry'') = ''azContainerRegistry''"
proof -
  have h1: "ValidateType (ruleVar ''dir'') \<in>
     set [''azClusterName'', ''azResourceGroup'', ''containerName'', ''dir'', ''ghBranch'']"
    by (simp add: ruleVar_def)
  have h2: "Validate azReady ''V'' (ruleVar ''azContainerRegistry'') ''Ab'' =
     Some (RegistryNameInvalid ''Ab'')"
    by (simp add: Validate_def ruleVar_def azReady_def validateAzureContainerRegistry_def
        matchesRegistryPattern_def)
  from C10_only_registry_rule_fails [OF h1 h2, of "''/no/such/dir''" azReady "''V''"] h1 h2
  show ?thesis by simp
qed

subsection \<open>Go maps and \<open>strings.Cut\<close>\<close>

lemma index_assign: "index (assign k v m) k' = (if k' = k then v else index m k')"
  by (simp add: index_def assign_def update_conv')

lemma keys_assign: "set (maps_Keys (assign k v m)) = insert k (set (maps_Keys m))"
  by (simp add: maps_Keys_def assign_def dom_update)

lemma strings_Cut_found:
  assumes "CHR ''='' \<in> set s"
  shows "\<exists>n v. strings_Cut s = (n, v, True) \<and> s = n @ ''='' @ v \<and> CHR ''='' \<notin> set n"
proof -
  let ?n = "takeWhile (\<lambda>c. c \<noteq> CHR ''='') s"
  let ?d = "dropWhile (\<lambda>c. c \<noteq> CHR ''='') s"
  from assms have ne: "?d \<noteq> []"
    by (simp add: dropWhile_eq_Nil_conv)
  then have "hd ?d = CHR ''=''"
    using hd_dropWhile [of "\<lambda>c. c \<noteq> CHR ''=''" s] by auto
  with ne have d: "?d = CHR ''='' # tl ?d"
    by (metis list.collapse)
  have "s = ?n @ ?d"
    by simp
  with d have "s = ?n @ ''='' @ tl ?d"
    by simp
  moreover have "CHR ''='' \<notin> set ?n"
    by (auto dest: set_takeWhileD)
  ultimately show ?thesis
    using assms by (auto simp: strings_Cut_def)
qed

lemma strings_Cut_name_value:
  "CHR ''='' \<notin> set n \<Longrightarrow> strings_Cut (n @ CHR ''='' # v) = (n, v, True)"
  by (induction n) (auto simp: strings_Cut_def)

subsection \<open>The override strings\<close>

lemma flagVariables_loop_all_ok:
  "\<forall>fv \<in> set fvs. CHR ''='' \<in> set fv \<Longrightarrow>
     flagVariables_loop fvs m = (None, fold storeFlag fvs m)"
proof (induction fvs arbitrary: m)
  case Nil
  then show ?case by simp
next
  case (Cons fv fvs)
  then have "CHR ''='' \<in> set fv"
    by simp
  then obtain n v where "strings_Cut fv = (n, v, True)"
    using strings_Cut_found by blast
  with Cons show ?case
    by (simp add: storeFlag_def)
qed

lemma flagVariables_loop_first_bad:
  "\<forall>fv \<in> set pre. CHR ''='' \<in> set fv \<Longrightarrow> CHR ''='' \<notin> set bad \<Longrightarrow>
     flagVariables_loop (pre @ bad # post) m =
       (Some (InvalidVariableFormat bad), fold storeFlag pre m)"
proof (induction pre arbitrary: m)
  case Nil
  then show ?case by (simp add: strings_Cut_def)
next
  case (Cons fv pre)
  then have "CHR ''='' \<in> set fv"
    by simp
  then obtain n v where "strings_Cut fv = (n, v, True)"
    using strings_Cut_found by blast
  with Cons show ?case
    by (simp add: storeFlag_def)
qed

lemma index_fold_storeFlag_other:
  "\<forall>fv \<in> set fvs. fst (strings_Cut fv) \<noteq> k \<Longrightarrow> index (fold storeFlag fvs m) k = index m k"
  by (induction fvs arbitrary: m) (auto simp: storeFlag_def index_assign)

text \<open>
  C3 (as the code has it). When every override string is well formed and \<open>name=v\<close> is the
  last one for \<open>name\<close>, the flag map that leaves the loop of \<open>generateWorkflows\<close> holds \<open>v\<close>
  for \<open>name\<close>, whatever the workflow configuration stored for that name before; a name that
  no override string names keeps what the workflow configuration stored.
\<close>

theorem C3_override_replaces_config_value:
  assumes "flagVariables = pre @ (name @ ''='' @ v) # post"
    and "CHR ''='' \<notin> set name"
    and "\<forall>fv \<in> set (pre @ post). CHR ''='' \<in> set fv"
    and "\<forall>fv \<in> set post. fst (strings_Cut fv) \<noteq> name"
  shows "\<exists>m. flagVariables_loop flagVariables (RunE_flagValuesMap nflag workflowConfig) =
               (None, m) \<and>
             index m name = v \<and>
             (\<forall>k. (\<forall>fv \<in> set flagVariables. fst (strings_Cut fv) \<noteq> k) \<longrightarrow>
                  index m k = index (RunE_flagValuesMap nflag workflowConfig) k)"
proof -
  let ?m = "fold storeFlag flagVariables (RunE_flagValuesMap nflag workflowConfig)"
  have ok: "\<forall>fv \<in> set flagVariables. CHR ''='' \<in> set fv"
    using assms(1,3) by auto
  have c: "strings_Cut (name @ CHR ''='' # v) = (name, v, True)"
    using assms(2) by (rule strings_Cut_name_value)
  have mine: "index ?m name = v"
    using assms(4) unfolding assms(1)
    by (simp add: index_fold_storeFlag_other storeFlag_def c index_assign)
  have others: "index ?m k = index (RunE_flagValuesMap nflag workflowConfig) k"
    if "\<forall>fv \<in> set flagVariables. fst (strings_Cut fv) \<noteq> k" for k
    using that by (rule index_fold_storeFlag_other)
  from flagVariables_loop_all_ok [OF ok] mine others show ?thesis
    by blast
qed

theorem C3_override_replaces_config_value_witness:
  "flagVariables_loop [''AZURECONTAINERREGISTRY=fromflag'']
     (RunE_flagValuesMap 2 registryFromConfig) =
     (None, [(''AZURECONTAINERREGISTRY'', ''fromflag'')]) \<and>
   index [(''AZURECONTAINERREGISTRY'', ''fromflag'')] ''AZURECONTAINERREGISTRY'' = ''fromflag'' \<and>
   index [(''AZURECONTAINERREGISTRY'', ''fromflag'')] ''CLUSTERNAME'' =
     index (RunE_flagValuesMap 2 registryFromConfig) ''CLUSTERNAME''"
proof -
  have run: "flagVariables_loop [''AZURECONTAINERREGISTRY=fromflag'']
     (RunE_flagValuesMap 2 registryFromConfig) =
     (None, [(''AZURECONTAINERREGISTRY'', ''fromflag'')])"
    by (simp add: RunE_flagValuesMap_def SetFlagValuesToMap_def registryFromConfig_def
        strings_Cut_def assign_def)
  have other: "\<forall>fv \<in> set [''AZURECONTAINERREGISTRY=fromflag''].
      fst (strings_Cut fv) \<noteq> ''CLUSTERNAME''"
    by (simp add: strings_Cut_def)
  from C3_override_replaces_config_value
    [of "[''AZURECONTAINERREGISTRY=fromflag'']" "[]" "''AZURECONTAINERREGISTRY''" "''fromflag''"
      "[]" 2 registryFromConfig]
  obtain m where m: "flagVariables_loop [''AZURECONTAINERREGISTRY=fromflag'']
          (RunE_flagValuesMap 2 registryFromConfig) = (None, m)"
    and mine: "index m ''AZURECONTAINERREGISTRY'' = ''fromflag''"
    and others: "\<And>k. \<forall>fv \<in> set [''AZURECONTAINERREGISTRY=fromflag''].
        fst (strings_Cut fv) \<noteq> k \<Longrightarrow>
        index m k = index (RunE_flagValuesMap 2 registryFromConfig) k"
    by auto
  from m run have "m = [(''AZURECONTAINERREGISTRY'', ''fromflag'')]"
    by simp
  with run mine others [OF other] show ?thesis
    by simp
qed

text \<open>
  C3 as stated fails: the configuration gives \<open>fromconfig\<close> for the registry, the override
  string gives \<open>fromflag\<close>, and the final flag map holds \<open>fromflag\<close>.
\<close>

theorem C3_config_value_wins_counterexample:
  "index (RunE_flagValuesMap 2 registryFromConfig) ''AZURECONTAINERREGISTRY'' = ''fromconfig'' \<and>
   flagVariables_loop [''AZURECONTAINERREGISTRY=fromflag'']
     (RunE_flagValuesMap 2 registryFromConfig) =
     (None, [(''AZURECONTAINERREGISTRY'', ''fromflag'')]) \<and>
   index [(''AZURECONTAINERREGISTRY'', ''fromflag'')] ''AZURECONTAINERREGISTRY'' \<noteq> ''fromconfig''"
  by (simp add: RunE_flagValuesMap_def SetFlagValuesToMap_def registryFromConfig_def
      strings_Cut_def assign_def index_def)

lemma generateWorkflows_map:
  "flagVariables_loop flagVariables fvm = (None, fvm') \<Longrightarrow>
     snd (snd (snd (generateWorkflows newWorkflows dest deployType flagVariables tw (Some fvm) c w))) =
       Some fvm'"
  by (simp add: generateWorkflows_def Let_def split: prod.splits sum.splits)

text \<open>
  C8 (as the code has it). The first override string without \<open>=\<close> ends \<open>createFlagMap\<close> and
  \<open>generateWorkflows\<close> with the format error that names it: \<open>createFlagMap\<close> returns no map,
  \<open>generateWorkflows\<close> asks nothing and does not touch the sink. The flag map holds by then
  what the strings before the malformed one stored, and nothing of that string or of the
  strings after it. When every string has a \<open>=\<close>, the flag map that \<open>createFlagMap\<close> returns,
  and the one that \<open>generateWorkflows\<close> leaves to its caller, is the starting map with each
  value stored under its name, in the order of the list. Every string with a \<open>=\<close> is cut
  at its first \<open>=\<close> into the name and the value that are stored.
\<close>

theorem C8_override_strings:
  assumes "\<forall>fv \<in> set pre. CHR ''='' \<in> set fv"
    and "CHR ''='' \<notin> set bad"
    and "\<forall>fv \<in> set good. CHR ''='' \<in> set fv"
  shows "createFlagMap nflag workflowEnv (pre @ bad # post) =
           (Inl (InvalidVariableFormat bad),
            fold storeFlag pre (if nflag \<noteq> 0 then BuildMap workflowEnv else [])) \<and>
         generateWorkflows newWorkflows dest deployType (pre @ bad # post) tw (Some fvm) c w =
           (Some (InvalidVariableFormat bad), c, w, Some (fold storeFlag pre fvm)) \<and>
         createFlagMap nflag workflowEnv good =
           (Inr (fold storeFlag good (if nflag \<noteq> 0 then BuildMap workflowEnv else [])),
            fold storeFlag good (if nflag \<noteq> 0 then BuildMap workflowEnv else [])) \<and>
         snd (snd (snd (generateWorkflows newWorkflows dest deployType good tw (Some fvm) c w))) =
           Some (fold storeFlag good fvm) \<and>
         (\<forall>fv \<in> set (pre @ good). \<exists>n v. fv = n @ ''='' @ v \<and> CHR ''='' \<notin> set n \<and>
                                          storeFlag fv = assign n v)"
proof -
  have bad: "\<And>m. flagVariables_loop (pre @ bad # post) m =
      (Some (InvalidVariableFormat bad), fold storeFlag pre m)"
    using assms(1,2) by (rule flagVariables_loop_first_bad)
  have good: "\<And>m. flagVariables_loop good m = (None, fold storeFlag good m)"
    using assms(3) by (rule flagVariables_loop_all_ok)
  have split: "\<exists>n v. fv = n @ ''='' @ v \<and> CHR ''='' \<notin> set n \<and> storeFlag fv = assign n v"
    if "fv \<in> set (pre @ good)" for fv
  proof -
    from that assms(1,3) have "CHR ''='' \<in> set fv"
      by auto
    then obtain n v where "strings_Cut fv = (n, v, True)" "fv = n @ ''='' @ v" "CHR ''='' \<notin> set n"
      using strings_Cut_found by blast
    then show ?thesis
      by (auto simp: storeFlag_def fun_eq_iff)
  qed
  have left: "snd (snd (snd (generateWorkflows newWorkflows dest deployType good tw (Some fvm) c w))) =
      Some (fold storeFlag good fvm)"
    by (rule generateWorkflows_map [OF good])
  have aborts: "generateWorkflows newWorkflows dest deployType (pre @ bad # post) tw (Some fvm) c w =
      (Some (InvalidVariableFormat bad), c, w, Some (fold storeFlag pre fvm))"
    by (simp add: generateWorkflows_def bad)
  from split left aborts show ?thesis
    by (simp add: createFlagMap_def bad good)
qed

theorem C8_override_strings_witness:
  "createFlagMap 0 blankWorkflowEnv [''A=1'', ''B'', ''C=3''] =
     (Inl (InvalidVariableFormat ''B''), [(''A'', ''1'')]) \<and>
   generateWorkflows noTemplates ''.'' ''helm'' [''A=1'', ''B'', ''C=3''] recordingWriter (Some [])
       quietConsole [] = (Some (InvalidVariableFormat ''B''), quietConsole, [], Some [(''A'', ''1'')]) \<and>
   createFlagMap 0 blankWorkflowEnv [''A=1'', ''B=x=y'', ''A=''] =
     (Inr [(''A'', ''''), (''B'', ''x=y'')], [(''A'', ''''), (''B'', ''x=y'')]) \<and>
   snd (snd (snd (generateWorkflows noTemplates ''.'' ''helm'' [''A=1'', ''B=x=y'', ''A='']
       recordingWriter (Some []) quietConsole []))) = Some [(''A'', ''''), (''B'', ''x=y'')]"
  using C8_override_strings [of "[''A=1'']" "''B''" "[''A=1'', ''B=x=y'', ''A='']" 0
      blankWorkflowEnv "[''C=3'']" noTemplates "''.''" "''helm''" recordingWriter "[]"
      quietConsole "[]"]
  by (simp add: storeFlag_def strings_Cut_def assign_def)

text \<open>
  C8 as stated fails: of the list \<open>A=1\<close>, \<open>B\<close>, \<open>C=3\<close> the string \<open>B\<close> has no \<open>=\<close>, and
  when \<open>generateWorkflows\<close> and \<open>createFlagMap\<close> return the format error the flag map holds
  the value \<open>1\<close> for \<open>A\<close>: the flag value of the string before \<open>B\<close> has been entered.
\<close>

theorem C8_override_strings_counterexample:
  "CHR ''='' \<notin> set ''B'' \<and>
   generateWorkflows noTemplates ''.'' ''helm'' [''A=1'', ''B'', ''C=3''] recordingWriter (Some [])
       quietConsole [] = (Some (InvalidVariableFormat ''B''), quietConsole, [], Some [(''A'', ''1'')]) \<and>
   createFlagMap 0 blankWorkflowEnv [''A=1'', ''B'', ''C=3''] =
     (Inl (InvalidVariableFormat ''B''), [(''A'', ''1'')]) \<and>
   index [(''A'', ''1'')] ''A'' = ''1''"
  by (simp add: generateWorkflows_def createFlagMap_def strings_Cut_def assign_def index_def)

subsection \<open>Materialization\<close>

text \<open>
  C1 (the code at a failing input). A directory holds the file \<open>a.txt\<close> and, after it, the
  directory \<open>sub\<close> with the file \<open>c.txt\<close>. \<open>CopyDir\<close> hands both files to the sink;
  \<open>CopyDirToFileMap\<close> returns a map with \<open>out/sub/c.txt\<close> alone, because the map of the
  recursive call replaces the map that already held \<open>out/a.txt\<close>.
\<close>

theorem C1_file_before_directory_dropped:
  "CopyDir (Inr mixedTree) ''out'' None [] recordingWriter [] =
     (None, [WriteFileCall ''out/a.txt'' ''A'', EnsureDirectoryCall ''out/sub'',
             WriteFileCall ''out/sub/c.txt'' ''C'']) \<and>
   CopyDirToFileMap (Inr mixedTree) ''out'' None [] = Inr [(''out/sub/c.txt'', ''C'')] \<and>
   set (writtenFiles [WriteFileCall ''out/a.txt'' ''A'', EnsureDirectoryCall ''out/sub'',
             WriteFileCall ''out/sub/c.txt'' ''C'']) \<noteq> set [(''out/sub/c.txt'', ''C'')]"
  by (simp add: mixedTree_def recordingWriter_def handleTemplateReplacement_def
      checkNameOverrides_def assign_def)

subsection \<open>Resolution\<close>

lemma fold_default_skip:
  "\<forall>e \<in> set post. vdName e \<noteq> n \<Longrightarrow>
     fold (\<lambda>variableDefault defaultValue.
             if vdName variableDefault = n
             then (if ReferenceVar variableDefault \<noteq> [] \<and>
                      index inputs (ReferenceVar variableDefault) \<noteq> []
                   then index inputs (ReferenceVar variableDefault)
                   else Value variableDefault)
             else defaultValue) post acc = acc"
  by (induction post arbitrary: acc) auto

text \<open>
  C5. For the entry \<open>d\<close> of a variable (the last entry with its name, the only one when
  names are unique), \<open>GetVariableDefaultValue\<close> returns \<open>d\<close>'s literal value, except that it
  returns what \<open>inputs\<close> holds for \<open>d\<close>'s reference variable when that is set and not empty.
  Only \<open>inputs\<close> is read for the referenced name: one hop. A variable without an entry has the
  empty default.
\<close>

theorem C5_default_or_reference:
  assumes "variableDefaults = pre @ d # post"
    and "\<forall>e \<in> set post. vdName e \<noteq> vdName d"
    and "\<forall>e \<in> set undeclared. vdName e \<noteq> n"
  shows "GetVariableDefaultValue (vdName d) variableDefaults inputs =
           (if ReferenceVar d \<noteq> [] \<and> index inputs (ReferenceVar d) \<noteq> []
            then index inputs (ReferenceVar d) else Value d) \<and>
         GetVariableDefaultValue n undeclared inputs = []"
  using assms(2,3) unfolding assms(1)
  by (simp add: GetVariableDefaultValue_def fold_default_skip)

theorem C5_default_or_reference_witness:
  "GetVariableDefaultValue ''B'' [refA, refB] [(''A'', ''x'')] = ''x'' \<and>
   GetVariableDefaultValue ''A'' [refA, refB] [] = ''x'' \<and>
   GetVariableDefaultValue ''C'' [refA, refB] [(''A'', ''x'')] = []"
  using C5_default_or_reference [of "[refA, refB]" "[refA]" refB "[]" "[refA, refB]" "''C''" "[(''A'', ''x'')]"]
    C5_default_or_reference [of "[refA, refB]" "[]" refA "[refB]" "[]" "''C''" "[]"]
  by (simp add: refA_def refB_def index_def)

lemma index_nonempty_key: "index m k \<noteq> [] \<Longrightarrow> k \<in> set (maps_Keys m)"
  by (auto simp: index_def maps_Keys_def split: option.splits dest: map_of_SomeD intro: rev_image_eqI)

lemma index_missing_key: "k \<notin> set (maps_Keys m) \<Longrightarrow> index m k = []"
  using index_nonempty_key by blast

lemma ask_issued: "ask p accepts c = (r, c') \<Longrightarrow> issued c' = issued c @ [p]"
  by (auto simp: ask_def split: prod.splits)

lemma RunBoolPrompt_issued:
  "RunBoolPrompt customPrompt c = (r, c') \<Longrightarrow> \<exists>l. issued c' = issued c @ [VarPrompt customPrompt l]"
  by (auto simp: RunBoolPrompt_def dest: ask_issued)

lemma RunDefaultableStringPrompt_issued:
  "RunDefaultableStringPrompt customPrompt d v c = (r, c') \<Longrightarrow>
     \<exists>l. issued c' = issued c @ [VarPrompt customPrompt l]"
  by (auto simp: RunDefaultableStringPrompt_def Let_def split: prod.splits sum.splits
      dest!: ask_issued)

lemma RunPrompts_loop_skips:
  "RunPrompts_loop vars vds skipMap inputs c = (r, c') \<Longrightarrow>
     (\<exists>new. issued c' = issued c @ new \<and> unskipped skipMap new) \<and>
     (\<forall>m. r = Inr m \<longrightarrow> set (maps_Keys m) \<subseteq> set (maps_Keys inputs) \<union> (UNIV - skipMap))"
proof (induction vars vds skipMap inputs c arbitrary: r c' rule: RunPrompts_loop.induct)
  case (1 variableDefaults skipMap inputs c)
  then show ?case by (auto simp: unskipped_def)
next
  case (2 customPrompt rest variableDefaults skipMap inputs c)
  show ?case
  proof (cases "Name customPrompt \<in> skipMap")
    case True
    with 2 show ?thesis by simp
  next
    case notskipped: False
    show ?thesis
    proof (cases "GetIsPromptDisabled (Name customPrompt) variableDefaults")
      case True
      show ?thesis
      proof (cases "GetVariableDefaultValue (Name customPrompt) variableDefaults inputs = []")
        case True
        with "2.prems" notskipped \<open>GetIsPromptDisabled (Name customPrompt) variableDefaults\<close>
        show ?thesis by (auto simp: unskipped_def)
      next
        case False
        with "2.IH"(2)[OF notskipped \<open>GetIsPromptDisabled (Name customPrompt) variableDefaults\<close> refl False]
          "2.prems" notskipped \<open>GetIsPromptDisabled (Name customPrompt) variableDefaults\<close>
        show ?thesis by (auto simp: keys_assign)
      qed
    next
      case enabled: False
      show ?thesis
      proof (cases "VarType customPrompt = ''bool''")
        case True
        obtain r1 c1 where run: "RunBoolPrompt customPrompt c = (r1, c1)"
          by (cases "RunBoolPrompt customPrompt c")
        then obtain l where iss: "issued c1 = issued c @ [VarPrompt customPrompt l]"
          using RunBoolPrompt_issued by blast
        show ?thesis
        proof (cases r1)
          case (Inl e)
          with "2.prems" notskipped enabled True run iss show ?thesis
            by (auto simp: unskipped_def)
        next
          case (Inr input)
          from "2.prems" notskipped enabled True run Inr
          have rec: "RunPrompts_loop rest variableDefaults skipMap
                       (assign (Name customPrompt) input inputs) c1 = (r, c')"
            by simp
          from "2.IH"(3)[OF notskipped enabled True run[symmetric] Inr rec] iss notskipped
          show ?thesis
            by (auto simp: unskipped_def keys_assign)
        qed
      next
        case False
        let ?d = "GetVariableDefaultValue (Name customPrompt) variableDefaults inputs"
        obtain r1 c1 where run: "RunDefaultableStringPrompt customPrompt ?d None c = (r1, c1)"
          by (cases "RunDefaultableStringPrompt customPrompt ?d None c")
        then obtain l where iss: "issued c1 = issued c @ [VarPrompt customPrompt l]"
          using RunDefaultableStringPrompt_issued by blast
        show ?thesis
        proof (cases r1)
          case (Inl e)
          with "2.prems" notskipped enabled False run iss show ?thesis
            by (auto simp: unskipped_def)
        next
          case (Inr input)
          from "2.prems" notskipped enabled False run Inr
          have rec: "RunPrompts_loop rest variableDefaults skipMap
                       (assign (Name customPrompt) input inputs) c1 = (r, c')"
            by simp
          from "2.IH"(4)[OF notskipped enabled False run[symmetric] Inr rec] iss notskipped
          show ?thesis
            by (auto simp: unskipped_def keys_assign)
        qed
      qed
    qed
  qed
qed

lemma substituteDefaults_fold: "substituteDefaults vds m = fold defaultStep vds m"
  by (simp add: substituteDefaults_def defaultStep_def [abs_def])

lemma substituteDefaults_Nil: "substituteDefaults [] m = m"
  by (simp add: substituteDefaults_def)

lemma substituteDefaults_Cons:
  "substituteDefaults (d # vds) m = substituteDefaults vds (defaultStep d m)"
  by (simp add: substituteDefaults_fold)

lemma keys_defaultStep:
  "set (maps_Keys (defaultStep d m)) = insert (vdName d) (set (maps_Keys m))"
  using index_nonempty_key [of m "vdName d"]
  by (auto simp: defaultStep_def keys_assign)

lemma keys_substituteDefaults:
  "set (maps_Keys (substituteDefaults vds m)) = set (maps_Keys m) \<union> vdName ` set vds"
  by (induction vds arbitrary: m)
    (auto simp: substituteDefaults_Nil substituteDefaults_Cons keys_defaultStep)

lemma index_substituteDefaults:
  "index (substituteDefaults vds m) k =
     (if index m k \<noteq> [] then index m k
      else case find (\<lambda>d. vdName d = k \<and> Value d \<noteq> []) vds of
             None \<Rightarrow> [] | Some d \<Rightarrow> Value d)"
proof (induction vds arbitrary: m)
  case Nil
  then show ?case by (simp add: substituteDefaults_Nil)
next
  case (Cons d vds)
  have step: "index (defaultStep d m) k =
      (if index m k \<noteq> [] then index m k else if vdName d = k then Value d else [])"
    by (auto simp: defaultStep_def index_assign)
  show ?case
    unfolding substituteDefaults_Cons Cons.IH step
    by auto
qed

text \<open>
  C2 (as the code has it). No prompt is issued for a variable named in \<open>varsToSkip\<close>, and the
  first loop stores nothing for it. The second loop still runs over every entry of
  \<open>VariableDefaults\<close>: a skipped variable is a key of the returned map exactly when it has
  such an entry, and its value is then the first literal default that is not empty (the
  empty string if there is none).
\<close>

theorem C2_skipped_variable:
  assumes "RunPromptsFromConfigWithSkipsIO config varsToSkip c = (r, c')"
    and "name \<in> set varsToSkip"
  shows "(\<exists>new. issued c' = issued c @ new \<and> (\<forall>p \<in> set new. promptedVariable p \<noteq> Some name)) \<and>
         (\<forall>m. r = Inr m \<longrightarrow>
            (name \<in> set (maps_Keys m) \<longleftrightarrow> name \<in> vdName ` set (VariableDefaults config)) \<and>
            index m name =
              (case find (\<lambda>d. vdName d = name \<and> Value d \<noteq> []) (VariableDefaults config) of
                 None \<Rightarrow> [] | Some d \<Rightarrow> Value d))"
proof -
  obtain r1 c1 where loop:
    "RunPrompts_loop (Variables config) (VariableDefaults config) (set varsToSkip) [] c = (r1, c1)"
    by (cases "RunPrompts_loop (Variables config) (VariableDefaults config) (set varsToSkip) [] c")
  from RunPrompts_loop_skips [OF loop] obtain new where
    new: "issued c1 = issued c @ new" "unskipped (set varsToSkip) new"
    and keys: "\<And>m. r1 = Inr m \<Longrightarrow> set (maps_Keys m) \<subseteq> UNIV - set varsToSkip"
    by (auto simp: maps_Keys_def)
  from assms(1) loop have c': "c' = c1"
    by (auto simp: RunPromptsFromConfigWithSkipsIO_def split: sum.splits)
  from new(2) assms(2) have quiet: "\<forall>p \<in> set new. promptedVariable p \<noteq> Some name"
    by (auto simp: unskipped_def)
  have result: "(name \<in> set (maps_Keys m) \<longleftrightarrow> name \<in> vdName ` set (VariableDefaults config)) \<and>
            index m name =
              (case find (\<lambda>d. vdName d = name \<and> Value d \<noteq> []) (VariableDefaults config) of
                 None \<Rightarrow> [] | Some d \<Rightarrow> Value d)"
    if "r = Inr m" for m
  proof -
    from that assms(1) loop obtain inputs where
      r1: "r1 = Inr inputs" and m: "m = substituteDefaults (VariableDefaults config) inputs"
      by (auto simp: RunPromptsFromConfigWithSkipsIO_def split: sum.splits)
    from keys [OF r1] assms(2) have absent: "name \<notin> set (maps_Keys inputs)"
      by auto
    then have "index inputs name = []"
      by (rule index_missing_key)
    with absent show ?thesis
      unfolding m by (simp add: keys_substituteDefaults index_substituteDefaults)
  qed
  from new(1) quiet c' result show ?thesis
    by blast
qed

text \<open>
  C2 as stated fails: \<open>PORT\<close> is skipped and has the declared default \<open>8080\<close>; the returned
  map has the key \<open>PORT\<close>.
\<close>

theorem C2_skipped_variable_counterexample:
  "''PORT'' \<in> set [''PORT''] \<and>
   RunPromptsFromConfigWithSkipsIO portConfig [''PORT''] quietConsole =
     (Inr [(''PORT'', ''8080'')], quietConsole) \<and>
   ''PORT'' \<in> set (maps_Keys [(''PORT'', ''8080'')])"
  by (simp add: RunPromptsFromConfigWithSkipsIO_def portConfig_def portVar_def quietConsole_def
      substituteDefaults_def index_def assign_def maps_Keys_def)

theorem C2_skipped_variable_witness:
  "issued quietConsole = [] \<and>
   ''PORT'' \<in> set (maps_Keys [(''PORT'', ''8080'')]) \<and>
   ''PORT'' \<in> vdName ` set (VariableDefaults portConfig) \<and>
   index [(''PORT'', ''8080'')] ''PORT'' = ''8080''"
proof -
  have run: "RunPromptsFromConfigWithSkipsIO portConfig [''PORT''] quietConsole =
     (Inr [(''PORT'', ''8080'')], quietConsole)"
    by (simp add: RunPromptsFromConfigWithSkipsIO_def portConfig_def portVar_def quietConsole_def
      substituteDefaults_def index_def assign_def)
  have skip: "''PORT'' \<in> set [''PORT'']"
    by simp
  from C2_skipped_variable [OF run skip] show ?thesis
    by (simp add: portConfig_def quietConsole_def maps_Keys_def)
qed

lemma RunPrompts_loop_append:
  "RunPrompts_loop (pre @ rest) vds skipMap inputs c =
     (case RunPrompts_loop pre vds skipMap inputs c of
        (Inl err, c') \<Rightarrow> (Inl err, c')
      | (Inr inputs', c') \<Rightarrow> RunPrompts_loop rest vds skipMap inputs' c')"
  by (induction pre vds skipMap inputs c rule: RunPrompts_loop.induct)
    (auto simp: Let_def split: prod.splits sum.splits)

lemma promptDeployType_inline:
  "(if deployType = []
    then ask (SelectPrompt ''Select k8s Deployment Type'')
           (\<lambda>s. s \<in> set [''helm'', ''kustomize'', ''manifests'']) c
    else (Inr deployType, c)) = promptDeployType deployType c"
  by (simp add: promptDeployType_def split: prod.splits sum.splits)

text \<open>
  C4 (as the code has it). The variable \<open>v\<close> is not in the skip set, its prompt is disabled
  and its default/reference chase yields the empty string at the inputs that the variables
  before it resolved. Then \<open>RunPromptsFromConfigWithSkipsIO\<close> returns no map and an error:
  the error that names \<open>v\<close>, or the error of a variable before \<open>v\<close> if one of them failed.
  The console is as the variables before \<open>v\<close> left it, so nothing is asked or resolved for
  the variables after \<open>v\<close>. Whenever \<open>generateWorkflows\<close> reaches the resolution of that
  configuration, with the deploy type given or selected, it returns that error with the
  sink untouched.
\<close>

theorem C4_no_default_for_disabled_prompt:
  assumes "Variables config = pre @ v # post"
    and "RunPrompts_loop pre (VariableDefaults config) (set varsToSkip) [] c = (r, c')"
    and "Name v \<notin> set varsToSkip"
    and "GetIsPromptDisabled (Name v) (VariableDefaults config)"
    and "\<forall>inputs. r = Inr inputs \<longrightarrow>
           GetVariableDefaultValue (Name v) (VariableDefaults config) inputs = []"
    and "flagVariables_loop flagVariables fvm = (None, fvm')"
    and "maps_Keys fvm' = varsToSkip"
    and "promptDeployType deployType c0 = (Inr deployType', c)"
    and "GetConfig (newWorkflows dest) deployType' = Inr config"
  shows "\<exists>err. RunPromptsFromConfigWithSkipsIO config varsToSkip c = (Inl err, c') \<and>
           generateWorkflows newWorkflows dest deployType flagVariables tw (Some fvm) c0 w =
             (Some err, c', w, Some fvm') \<and>
           (case r of Inl early \<Rightarrow> err = early | Inr inputs \<Rightarrow> err = NoDefaultValue (Name v))"
proof -
  define err where "err = (case r of Inl early \<Rightarrow> early | Inr inputs \<Rightarrow> NoDefaultValue (Name v))"
  have run: "RunPromptsFromConfigWithSkipsIO config varsToSkip c = (Inl err, c')"
  proof (cases r)
    case (Inl early)
    with assms(2) show ?thesis
      by (simp add: RunPromptsFromConfigWithSkipsIO_def assms(1) RunPrompts_loop_append err_def)
  next
    case (Inr inputs)
    with assms(5) have "GetVariableDefaultValue (Name v) (VariableDefaults config) inputs = []"
      by simp
    with Inr assms(2-4) show ?thesis
      by (simp add: RunPromptsFromConfigWithSkipsIO_def assms(1) RunPrompts_loop_append err_def)
  qed
  have gen: "generateWorkflows newWorkflows dest deployType flagVariables tw (Some fvm) c0 w =
      (Some err, c', w, Some fvm')"
    using run assms(6-9)
    by (simp add: generateWorkflows_def promptDeployType_inline RunPromptsFromConfigWithSkips_def)
  have "case r of Inl early \<Rightarrow> err = early | Inr inputs \<Rightarrow> err = NoDefaultValue (Name v)"
    by (cases r) (simp_all add: err_def)
  with run gen show ?thesis
    by blast
qed

theorem C4_no_default_for_disabled_prompt_witness:
  "RunPromptsFromConfigWithSkipsIO tagConfig [''X'']
       \<lparr>script = [Inr []], issued = [SelectPrompt ''Select k8s Deployment Type'']\<rparr> =
     (Inl (NoDefaultValue ''TAG''),
      consoleWith [] [SelectPrompt ''Select k8s Deployment Type'',
                      VarPrompt portVar ''Please enter the port (default: 8080)'']) \<and>
   generateWorkflows tagWorkflows ''.'' [] [''X=1''] recordingWriter (Some [])
       (consoleWith [''helm'', []] []) [] =
     (Some (NoDefaultValue ''TAG''),
      consoleWith [] [SelectPrompt ''Select k8s Deployment Type'',
                      VarPrompt portVar ''Please enter the port (default: 8080)''],
      [], Some [(''X'', ''1'')])"
proof -
  let ?c = "\<lparr>script = [Inr []], issued = [SelectPrompt ''Select k8s Deployment Type'']\<rparr>"
  let ?c' = "consoleWith [] [SelectPrompt ''Select k8s Deployment Type'',
                      VarPrompt portVar ''Please enter the port (default: 8080)'']"
  have vars: "Variables tagConfig = [portVar] @ tagVar # [hostVar]"
    by (simp add: tagConfig_def)
  have loop: "RunPrompts_loop [portVar] (VariableDefaults tagConfig) (set [''X'']) [] ?c =
      (Inr [(''PORT'', ''8080'')], ?c')"
    by (simp add: tagConfig_def portVar_def GetVariableDefaultValue_def
        RunDefaultableStringPrompt_def ask_def AllowAllStringValidator_def assign_def
        consoleWith_def index_def)
  have skip: "Name tagVar \<notin> set [''X'']"
    by (simp add: tagVar_def)
  have off: "GetIsPromptDisabled (Name tagVar) (VariableDefaults tagConfig)"
    by (simp add: tagVar_def tagConfig_def)
  have chase: "\<forall>inputs. Inr [(''PORT'', ''8080'')] = Inr inputs \<longrightarrow>
      GetVariableDefaultValue (Name tagVar) (VariableDefaults tagConfig) inputs = []"
    by (simp add: tagVar_def tagConfig_def GetVariableDefaultValue_def index_def)
  have flags: "flagVariables_loop [''X=1''] [] = (None, [(''X'', ''1'')])"
    by (simp add: strings_Cut_def assign_def)
  have keys: "maps_Keys [(''X'', ''1'')] = [''X'']"
    by (simp add: maps_Keys_def)
  have dt: "promptDeployType [] (consoleWith [''helm'', []] []) = (Inr ''helm'', ?c)"
    by (simp add: promptDeployType_def ask_def consoleWith_def)
  have cfg: "GetConfig (tagWorkflows ''.'') ''helm'' = Inr tagConfig"
    by (simp add: tagWorkflows_def)
  from C4_no_default_for_disabled_prompt
    [where newWorkflows = tagWorkflows and dest = "''.''" and tw = recordingWriter and w = "[]",
      OF vars loop skip off chase flags keys dt cfg]
  show ?thesis
    by (auto simp: tagVar_def)
qed

text \<open>
  C4 as stated fails for a variable in the skip set: \<open>TAG\<close> has its prompt disabled, no
  default value and no reference, so its chase yields the empty string whatever is
  resolved; with the override \<open>TAG=v1\<close> its name is in the skip set, the loop passes it
  before it looks at the disabled prompt, the resolution returns a map and no error, and
  \<open>generateWorkflows\<close> hands a file to the sink.
\<close>

theorem C4_no_default_for_disabled_prompt_counterexample:
  "tagVar \<in> set (Variables tagConfig) \<and>
   GetIsPromptDisabled (Name tagVar) (VariableDefaults tagConfig) \<and>
   GetVariableDefaultValue (Name tagVar) (VariableDefaults tagConfig) [] = [] \<and>
   GetVariableDefaultValue (Name tagVar) (VariableDefaults tagConfig)
     [(''PORT'', ''8080''), (''HOST'', ''example.org'')] = [] \<and>
   RunPromptsFromConfigWithSkipsIO tagConfig [''TAG''] (consoleWith [[], ''example.org''] []) =
     (Inr [(''PORT'', ''8080''), (''HOST'', ''example.org''), (''TAG'', [])],
      consoleWith [] [VarPrompt portVar ''Please enter the port (default: 8080)'',
                      VarPrompt hostVar ''Please enter the host'']) \<and>
   generateWorkflows tagWorkflows ''.'' ''helm'' [''TAG=v1''] recordingWriter (Some [])
       (consoleWith [[], ''example.org''] []) [] =
     (None,
      consoleWith [] [VarPrompt portVar ''Please enter the port (default: 8080)'',
                      VarPrompt hostVar ''Please enter the host''],
      [WriteFileCall ''./workflow.yml'' ''on: push''], Some [(''TAG'', ''v1'')])"
  by (simp add: tagConfig_def tagVar_def portVar_def hostVar_def tagWorkflows_def
      GetVariableDefaultValue_def RunPromptsFromConfigWithSkipsIO_def
      RunPromptsFromConfigWithSkips_def generateWorkflows_def RunDefaultableStringPrompt_def
      ask_def AllowAllStringValidator_def NoBlankStringValidator_def substituteDefaults_def
      assign_def index_def consoleWith_def recordingWriter_def maps_Keys_def maps_Copy_def
      strings_Cut_def)

subsection \<open>The reserved file name\<close>

lemma withoutDraftYaml_Cons:
  "withoutDraftYaml (f # rest) =
     (if entryName f = ''draft.yaml'' then withoutDraftYaml rest
      else (case f of
              Dir name (Inr sub) \<Rightarrow> Dir name (Inr (withoutDraftYaml sub))
            | _ \<Rightarrow> f) # withoutDraftYaml rest)"
proof (cases f)
  case (File name content)
  then show ?thesis by simp
next
  case (Dir name sub)
  then show ?thesis by (cases sub) simp_all
qed

lemma entryName_kept [simp]:
  "entryName (case f of Dir name (Inr sub) \<Rightarrow> Dir name (Inr (g sub)) | _ \<Rightarrow> f) = entryName f"
  by (auto split: fsnode.splits sum.splits)

lemma CopyDir_withoutDraftYaml:
  "CopyDir r dest config customInputs (tw :: 'w TemplateWriter) w =
     CopyDir (map_sum id withoutDraftYaml r) dest config customInputs tw w"
  and CopyDir_loop_withoutDraftYaml:
  "CopyDir_loop files dest' config' customInputs' (tw' :: 'w TemplateWriter) w' =
     CopyDir_loop (withoutDraftYaml files) dest' config' customInputs' tw' w'"
proof (induction r dest config customInputs tw w and files dest' config' customInputs' tw' w'
    rule: CopyDir_CopyDir_loop.induct)
  case (1 err dest config customInputs templateWriter w)
  then show ?case by simp
next
  case (2 files dest config customInputs templateWriter w)
  then show ?case by simp
next
  case (3 dest config customInputs templateWriter w)
  then show ?case by simp
next
  case (4 f rest dest config customInputs templateWriter w)
  show ?case
  proof (cases "entryName f = ''draft.yaml''")
    case True
    with 4(1) show ?thesis by (simp add: withoutDraftYaml_Cons)
  next
    case False
    show ?thesis
    proof (cases f)
      case (File name content)
      with False 4(2) show ?thesis
        by (simp add: withoutDraftYaml_Cons split: sum.splits prod.splits option.splits)
    next
      case (Dir name sub)
      obtain e1 w1 where ens:
        "EnsureDirectory templateWriter (dest @ ''/'' @ name) w = (e1, w1)"
        by (cases "EnsureDirectory templateWriter (dest @ ''/'' @ name) w")
      have pruned: "withoutDraftYaml (Dir name sub # rest) =
          Dir name (map_sum id withoutDraftYaml sub) # withoutDraftYaml rest"
        using False Dir by (cases sub) (simp_all add: withoutDraftYaml_Cons)
      show ?thesis
      proof (cases e1)
        case (Some err)
        with False Dir ens show ?thesis
          by (simp add: pruned)
      next
        case None
        from 4(3) [OF False Dir ens [symmetric] None]
        have sub: "CopyDir sub (dest @ ''/'' @ name) config customInputs templateWriter w1 =
            CopyDir (map_sum id withoutDraftYaml sub) (dest @ ''/'' @ name) config customInputs
              templateWriter w1" .
        obtain e2 w2 where rec:
          "CopyDir sub (dest @ ''/'' @ name) config customInputs templateWriter w1 = (e2, w2)"
          by (cases "CopyDir sub (dest @ ''/'' @ name) config customInputs templateWriter w1")
        from rec sub have rec2:
          "CopyDir (map_sum id withoutDraftYaml sub) (dest @ ''/'' @ name) config customInputs
              templateWriter w1 = (e2, w2)"
          by simp
        show ?thesis
        proof (cases e2)
          case (Some err)
          with False Dir ens None rec rec2 show ?thesis
            by (simp add: pruned)
        next
          case inner: None
          from 4(4) [OF False Dir ens [symmetric] None rec [symmetric] inner]
          have "CopyDir_loop rest dest config customInputs templateWriter w2 =
              CopyDir_loop (withoutDraftYaml rest) dest config customInputs templateWriter w2" .
          with False Dir ens None rec rec2 inner show ?thesis
            by (simp add: pruned)
        qed
      qed
    qed
  qed
qed

lemma CopyDirToFileMap_withoutDraftYaml:
  "CopyDirToFileMap r dest config customInputs =
     CopyDirToFileMap (map_sum id withoutDraftYaml r) dest config customInputs"
  and CopyDirToFileMap_loop_withoutDraftYaml:
  "CopyDirToFileMap_loop files dest' config' customInputs' fileMap =
     CopyDirToFileMap_loop (withoutDraftYaml files) dest' config' customInputs' fileMap"
proof (induction r dest config customInputs and files dest' config' customInputs' fileMap
    rule: CopyDirToFileMap_CopyDirToFileMap_loop.induct)
  case (1 err dest config customInputs)
  then show ?case by simp
next
  case (2 files dest config customInputs)
  then show ?case by simp
next
  case (3 dest config customInputs fileMap)
  then show ?case by simp
next
  case (4 f rest dest config customInputs fileMap)
  show ?case
  proof (cases "entryName f = ''draft.yaml''")
    case True
    with 4(1) show ?thesis by (simp add: withoutDraftYaml_Cons)
  next
    case False
    show ?thesis
    proof (cases f)
      case (File name content)
      with False 4(2) show ?thesis
        by (simp add: withoutDraftYaml_Cons split: sum.splits)
    next
      case (Dir name sub)
      have pruned: "withoutDraftYaml (Dir name sub # rest) =
          Dir name (map_sum id withoutDraftYaml sub) # withoutDraftYaml rest"
        using False Dir by (cases sub) (simp_all add: withoutDraftYaml_Cons)
      from 4(3) [OF False Dir]
      have sub: "CopyDirToFileMap sub (dest @ ''/'' @ name) config customInputs =
          CopyDirToFileMap (map_sum id withoutDraftYaml sub) (dest @ ''/'' @ name) config
            customInputs" .
      show ?thesis
      proof (cases "CopyDirToFileMap sub (dest @ ''/'' @ name) config customInputs")
        case (Inl err)
        with False Dir sub show ?thesis
          by (simp add: pruned)
      next
        case (Inr fileMap')
        from 4(4) [OF False Dir Inr]
        have "CopyDirToFileMap_loop rest dest config customInputs fileMap' =
            CopyDirToFileMap_loop (withoutDraftYaml rest) dest config customInputs fileMap'" .
        with False Dir sub Inr show ?thesis
          by (simp add: pruned)
      qed
    qed
  qed
qed

lemma baseName_join:
  assumes "CHR ''/'' \<notin> set name"
  shows "baseName (dest @ CHR ''/'' # name) = name"
proof -
  from assms have whole: "takeWhile (\<lambda>c. c \<noteq> CHR ''/'') (rev name) = rev name"
    by (auto simp: takeWhile_eq_all_conv)
  have "takeWhile (\<lambda>c. c \<noteq> CHR ''/'') (rev (dest @ CHR ''/'' # name)) =
      takeWhile (\<lambda>c. c \<noteq> CHR ''/'') (rev name)"
    by (simp add: takeWhile_tail)
  then show ?thesis
    unfolding baseName_def whole by simp
qed

lemma writtenFiles_append: "writtenFiles (a @ b) = writtenFiles a @ writtenFiles b"
  by (induction a rule: writtenFiles.induct) simp_all

lemma plainNames_Cons:
  "plainNames (Inr (f # rest)) \<longleftrightarrow>
     CHR ''/'' \<notin> set (entryName f) \<and> plainNames (Inr rest) \<and>
     (case f of Dir name sub \<Rightarrow> plainNames sub | _ \<Rightarrow> True)"
proof (cases f)
  case (File name content)
  then show ?thesis by (auto simp: plainNames_def)
next
  case (Dir name sub)
  then show ?thesis by (cases sub) (auto simp: plainNames_def)
qed

lemma CopyDir_recorded_paths:
  "tw = recordingWriter \<Longrightarrow> config = None \<Longrightarrow> plainNames r \<Longrightarrow>
     noDraftYaml (map fst (writtenFiles w)) \<Longrightarrow>
     noDraftYaml (map fst (writtenFiles (snd (CopyDir r dest config customInputs tw w))))"
  and CopyDir_loop_recorded_paths:
  "tw' = recordingWriter \<Longrightarrow> config' = None \<Longrightarrow> plainNames (Inr files) \<Longrightarrow>
     noDraftYaml (map fst (writtenFiles w')) \<Longrightarrow>
     noDraftYaml (map fst (writtenFiles (snd (CopyDir_loop files dest' config' customInputs' tw' w'))))"
proof (induction r dest config customInputs tw w and files dest' config' customInputs' tw' w'
    rule: CopyDir_CopyDir_loop.induct)
  case (1 err dest config customInputs templateWriter w)
  then show ?case by simp
next
  case (2 files dest config customInputs templateWriter w)
  then show ?case by simp
next
  case (3 dest config customInputs templateWriter w)
  then show ?case by simp
next
  case (4 f rest dest config customInputs templateWriter w)
  note tw = \<open>templateWriter = recordingWriter\<close>
  note cf = \<open>config = None\<close>
  from \<open>plainNames (Inr (f # rest))\<close>
  have plain: "CHR ''/'' \<notin> set (entryName f)" "plainNames (Inr rest)"
    and inner: "\<And>name sub. f = Dir name sub \<Longrightarrow> plainNames sub"
    by (auto simp: plainNames_Cons)
  note okw = \<open>noDraftYaml (map fst (writtenFiles w))\<close>
  show ?case
  proof (cases "entryName f = ''draft.yaml''")
    case True
    with 4(1) [OF True tw cf plain(2) okw] show ?thesis by simp
  next
    case False
    show ?thesis
    proof (cases f)
      case (File name content)
      show ?thesis
      proof (cases "handleTemplateReplacement content customInputs")
        case (Inl err)
        with False File okw show ?thesis by simp
      next
        case (Inr fileString)
        let ?p = "dest @ ''/'' @ checkNameOverrides name config"
        let ?w1 = "w @ [WriteFileCall ?p fileString]"
        have wr: "(None, ?w1) = WriteFile templateWriter ?p fileString w"
          by (simp add: tw recordingWriter_def)
        have "baseName ?p = name"
          using plain(1) File by (simp add: cf checkNameOverrides_def baseName_join)
        with False File okw have ok1: "noDraftYaml (map fst (writtenFiles ?w1))"
          by (simp add: noDraftYaml_def writtenFiles_append)
        from 4(2) [OF False File Inr wr refl tw cf plain(2) ok1] False File Inr wr [symmetric]
        show ?thesis by simp
      qed
    next
      case (Dir name sub)
      let ?p = "dest @ ''/'' @ name"
      let ?w1 = "w @ [EnsureDirectoryCall ?p]"
      have ens: "(None, ?w1) = EnsureDirectory templateWriter ?p w"
        by (simp add: tw recordingWriter_def)
      from okw have ok1: "noDraftYaml (map fst (writtenFiles ?w1))"
        by (simp add: writtenFiles_append)
      obtain e2 w2 where rec:
        "CopyDir sub ?p config customInputs templateWriter ?w1 = (e2, w2)"
        by (cases "CopyDir sub ?p config customInputs templateWriter ?w1")
      from 4(3) [OF False Dir ens refl tw cf inner [OF Dir] ok1] rec
      have ok2: "noDraftYaml (map fst (writtenFiles w2))"
        by simp
      show ?thesis
      proof (cases e2)
        case (Some err)
        with False Dir ens [symmetric] rec ok2 show ?thesis by simp
      next
        case None
        from 4(4) [OF False Dir ens refl rec [symmetric] None tw cf plain(2) ok2]
          False Dir ens [symmetric] rec None
        show ?thesis by simp
      qed
    qed
  qed
qed

lemma CopyDirToFileMap_paths:
  "config = None \<Longrightarrow> plainNames r \<Longrightarrow>
     CopyDirToFileMap r dest config customInputs = Inr m \<Longrightarrow> noDraftYaml (maps_Keys m)"
  and CopyDirToFileMap_loop_paths:
  "config' = None \<Longrightarrow> plainNames (Inr files) \<Longrightarrow> noDraftYaml (maps_Keys fileMap) \<Longrightarrow>
     CopyDirToFileMap_loop files dest' config' customInputs' fileMap = Inr m' \<Longrightarrow>
     noDraftYaml (maps_Keys m')"
proof (induction r dest config customInputs and files dest' config' customInputs' fileMap
    arbitrary: m and m' rule: CopyDirToFileMap_CopyDirToFileMap_loop.induct)
  case (1 err dest config customInputs)
  then show ?case by simp
next
  case (2 files dest config customInputs)
  then show ?case by (simp add: noDraftYaml_def maps_Keys_def)
next
  case (3 dest config customInputs fileMap)
  then show ?case by simp
next
  case (4 f rest dest config customInputs fileMap)
  note cf = \<open>config = None\<close>
  from \<open>plainNames (Inr (f # rest))\<close>
  have plain: "CHR ''/'' \<notin> set (entryName f)" "plainNames (Inr rest)"
    and inner: "\<And>name sub. f = Dir name sub \<Longrightarrow> plainNames sub"
    by (auto simp: plainNames_Cons)
  note okm = \<open>noDraftYaml (maps_Keys fileMap)\<close>
  note run = \<open>CopyDirToFileMap_loop (f # rest) dest config customInputs fileMap = Inr m'\<close>
  show ?case
  proof (cases "entryName f = ''draft.yaml''")
    case True
    with run have "CopyDirToFileMap_loop rest dest config customInputs fileMap = Inr m'"
      by simp
    from 4(1) [OF True cf plain(2) okm this] show ?thesis .
  next
    case False
    show ?thesis
    proof (cases f)
      case (File name content)
      with False run obtain fileString where
        subst: "handleTemplateReplacement content customInputs = Inr fileString"
        and rest: "CopyDirToFileMap_loop rest dest config customInputs
            (assign (dest @ ''/'' @ checkNameOverrides name config) fileString fileMap) = Inr m'"
        by (auto split: sum.splits)
      have "baseName (dest @ ''/'' @ checkNameOverrides name config) = name"
        using plain(1) File by (simp add: cf checkNameOverrides_def baseName_join)
      with False File okm have ok1:
        "noDraftYaml (maps_Keys
           (assign (dest @ ''/'' @ checkNameOverrides name config) fileString fileMap))"
        by (simp add: noDraftYaml_def keys_assign)
      from 4(2) [OF False File subst cf plain(2) ok1 rest] show ?thesis .
    next
      case (Dir name sub)
      with False run obtain fileMap' where
        sub: "CopyDirToFileMap sub (dest @ ''/'' @ name) config customInputs = Inr fileMap'"
        and rest: "CopyDirToFileMap_loop rest dest config customInputs fileMap' = Inr m'"
        by (auto split: sum.splits)
      from 4(3) [OF False Dir cf inner [OF Dir] sub]
      have ok1: "noDraftYaml (maps_Keys fileMap')" .
      from 4(4) [OF False Dir sub cf plain(2) ok1 rest] show ?thesis .
    qed
  qed
qed

text \<open>
  C7. An entry named \<open>draft.yaml\<close> is never materialized: \<open>CopyDir\<close> and
  \<open>CopyDirToFileMap\<close> do on any template tree exactly what they do on the tree without its
  entries of that name (same calls to the sink, same map, same error), for every sink, name
  override and variable map. And without name overrides, on a tree whose entry names have no
  slash, no path handed to \<open>WriteFile\<close> and no key of the returned map has the last
  component \<open>draft.yaml\<close>.
\<close>

theorem C7_draft_yaml_not_materialized:
  assumes "\<forall>n \<in> set (allNames files). CHR ''/'' \<notin> set n"
  shows "CopyDir (Inr files) dest config customInputs tw w =
           CopyDir (Inr (withoutDraftYaml files)) dest config customInputs tw w \<and>
         CopyDirToFileMap (Inr files) dest config customInputs =
           CopyDirToFileMap (Inr (withoutDraftYaml files)) dest config customInputs \<and>
         noDraftYaml (map fst (writtenFiles
           (snd (CopyDir (Inr files) dest None customInputs recordingWriter [])))) \<and>
         (\<forall>fileMap. CopyDirToFileMap (Inr files) dest None customInputs = Inr fileMap \<longrightarrow>
            noDraftYaml (maps_Keys fileMap))"
proof -
  from assms have plain: "plainNames (Inr files)"
    by (simp add: plainNames_def)
  have a: "CopyDir (Inr files) dest config customInputs tw w =
           CopyDir (Inr (withoutDraftYaml files)) dest config customInputs tw w"
    using CopyDir_withoutDraftYaml [of "Inr files" dest config customInputs tw w] by simp
  have b: "CopyDirToFileMap (Inr files) dest config customInputs =
           CopyDirToFileMap (Inr (withoutDraftYaml files)) dest config customInputs"
    using CopyDirToFileMap_withoutDraftYaml [of "Inr files" dest config customInputs] by simp
  have c: "noDraftYaml (map fst (writtenFiles
           (snd (CopyDir (Inr files) dest None customInputs recordingWriter []))))"
    using CopyDir_recorded_paths [OF refl refl plain, of "[]" dest customInputs]
    by (simp add: noDraftYaml_def)
  have d: "noDraftYaml (maps_Keys fileMap)"
    if "CopyDirToFileMap (Inr files) dest None customInputs = Inr fileMap" for fileMap
    using CopyDirToFileMap_paths [OF refl plain that] .
  from a b c d show ?thesis
    by blast
qed

theorem C7_draft_yaml_not_materialized_witness:
  "CopyDir (Inr manifestTree) ''out'' None [(''PORT'', ''8080'')] recordingWriter [] =
     (None, [EnsureDirectoryCall ''out/charts'',
             WriteFileCall ''out/charts/values.yaml'' ''port: 8080'']) \<and>
   CopyDirToFileMap (Inr manifestTree) ''out'' None [(''PORT'', ''8080'')] =
     Inr [(''out/charts/values.yaml'', ''port: 8080'')] \<and>
   withoutDraftYaml manifestTree =
     [Dir ''charts'' (Inr [File ''values.yaml'' (Inr ''port: {{PORT}}'')])]"
proof -
  have names: "\<forall>n \<in> set (allNames manifestTree). CHR ''/'' \<notin> set n"
    by (simp add: manifestTree_def)
  have pruned: "withoutDraftYaml manifestTree =
     [Dir ''charts'' (Inr [File ''values.yaml'' (Inr ''port: {{PORT}}'')])]"
    by (simp add: manifestTree_def)
  from C7_draft_yaml_not_materialized [OF names, of "''out''" None "[(''PORT'', ''8080'')]"
      recordingWriter "[]"]
  show ?thesis
    unfolding pruned
    by (simp add: recordingWriter_def handleTemplateReplacement_def checkNameOverrides_def
        assign_def)
qed

subsection \<open>Template substitution\<close>

lemma ReplaceAll_Nil: "old \<noteq> [] \<Longrightarrow> strings_ReplaceAll [] old new = []"
  by simp

lemma marker_not_Nil: "marker k \<noteq> []"
  by (simp add: marker_def)

lemma marker_prefix_Cons: "prefix (marker k) (c # cs) \<Longrightarrow> c = CHR ''{''"
  by (simp add: marker_def)

lemma marker_prefix_Cons_Cons:
  "prefix (marker k) (c # d # cs) \<Longrightarrow> c = CHR ''{'' \<and> d = CHR ''{''"
  by (auto simp: marker_def)

lemma ReplaceAll_match:
  "old \<noteq> [] \<Longrightarrow> strings_ReplaceAll (old @ s) old new = new @ strings_ReplaceAll s old new"
  by (cases old) (simp_all add: strings_ReplaceAll.simps)

lemma ReplaceAll_step:
  "old \<noteq> [] \<Longrightarrow> \<not> prefix old (c # cs) \<Longrightarrow>
     strings_ReplaceAll (c # cs) old new = c # strings_ReplaceAll cs old new"
  by simp

declare strings_ReplaceAll.simps [simp del]

lemma ReplaceAll_skip_text:
  "noMarkerStart t \<Longrightarrow>
     strings_ReplaceAll (t @ s) (marker k) new = t @ strings_ReplaceAll s (marker k) new"
proof (induction t rule: noMarkerStart.induct)
  case 1
  then show ?case by simp
next
  case (2 c)
  then have "\<not> prefix (marker k) (c # s)"
    using marker_prefix_Cons by fastforce
  then show ?case
    by (simp add: ReplaceAll_step marker_not_Nil)
next
  case (3 c d t)
  then have "\<not> prefix (marker k) (c # d # t @ s)" and rest: "noMarkerStart (d # t)"
    using marker_prefix_Cons_Cons by fastforce+
  with "3.IH" [OF rest] show ?case
    by (simp add: ReplaceAll_step marker_not_Nil)
qed

lemma noMarkerStart_without_open: "CHR ''{'' \<notin> set s \<Longrightarrow> noMarkerStart s"
  by (induction s rule: noMarkerStart.induct) auto

lemma other_name_no_prefix:
  "braceFree k \<Longrightarrow> braceFree n \<Longrightarrow> n \<noteq> k \<Longrightarrow> \<not> prefix (k @ ''}}'') (n @ ''}}'' @ s)"
proof (induction k arbitrary: n)
  case Nil
  then show ?case by (cases n) (auto simp: braceFree_def)
next
  case (Cons a k)
  show ?case
  proof (cases n)
    case Nil
    with Cons.prems show ?thesis by (auto simp: braceFree_def)
  next
    case (Cons b n')
    with Cons.prems Cons.IH [of n'] show ?thesis
      by (auto simp: braceFree_def)
  qed
qed

lemma ReplaceAll_skip_marker:
  assumes "braceFree k" "braceFree n" "n \<noteq> k"
  shows "strings_ReplaceAll (marker n @ s) (marker k) new =
           marker n @ strings_ReplaceAll s (marker k) new"
proof -
  have ne: "marker k \<noteq> []"
    by (simp add: marker_def)
  have first: "\<not> prefix (marker k) (CHR ''{'' # CHR ''{'' # n @ ''}}'' @ s)"
    using other_name_no_prefix [OF assms, of s] by (simp add: marker_def)
  have second: "\<not> prefix (marker k) (CHR ''{'' # n @ ''}}'' @ s)"
    using assms(2) by (cases n) (auto simp: marker_def braceFree_def)
  have tail: "noMarkerStart (n @ ''}}'')"
    using assms(2) by (intro noMarkerStart_without_open) (simp add: braceFree_def)
  have s1: "strings_ReplaceAll (CHR ''{'' # CHR ''{'' # n @ ''}}'' @ s) (marker k) new =
      CHR ''{'' # strings_ReplaceAll (CHR ''{'' # n @ ''}}'' @ s) (marker k) new"
    by (rule ReplaceAll_step [OF ne first])
  have s2: "strings_ReplaceAll (CHR ''{'' # n @ ''}}'' @ s) (marker k) new =
      CHR ''{'' # strings_ReplaceAll (n @ ''}}'' @ s) (marker k) new"
    by (rule ReplaceAll_step [OF ne second])
  have s3: "strings_ReplaceAll (n @ ''}}'' @ s) (marker k) new =
      n @ ''}}'' @ strings_ReplaceAll s (marker k) new"
    using ReplaceAll_skip_text [OF tail, of s k new] by simp
  have m: "marker n @ s' = CHR ''{'' # CHR ''{'' # n @ ''}}'' @ s'" for s'
    by (simp add: marker_def)
  show ?thesis
    unfolding m s1 s2 s3 ..
qed

lemma render_Nil: "render [] = []"
  by (simp add: render_def)

lemma render_Cons: "render (p # pieces) = renderPiece p @ render pieces"
  by (simp add: render_def)

lemma render_append: "render (a @ b) = render a @ render b"
  by (simp add: render_def)

lemma plainTemplate_append:
  "plainTemplate (a @ b) = (plainTemplate a \<and> plainTemplate b)"
  by (simp add: plainTemplate_def)

lemma expand_Nil: "expand resolved [] = []"
  by (simp add: expand_def)

lemma expand_Cons: "expand resolved (p # pieces) = expandPiece resolved p @ expand resolved pieces"
  by (simp add: expand_def)

lemma expand_append: "expand resolved (a @ b) = expand resolved a @ expand resolved b"
  by (simp add: expand_def)

lemma map_of_spelled: "map_of (spelled resolved) name = map_option render (map_of resolved name)"
  by (induction resolved) (auto simp: spelled_def)

lemma render_specSubstitute:
  "render (map (specSubstitute (spelled resolved)) pieces) = render (expand resolved pieces)"
proof (induction pieces)
  case Nil
  then show ?case by (simp add: expand_Nil)
next
  case (Cons p pieces)
  have "renderPiece (specSubstitute (spelled resolved) p) = render (expandPiece resolved p)"
    by (cases p) (auto simp: map_of_spelled render_def split: option.splits)
  with Cons show ?case
    by (simp add: render_Cons expand_Cons render_append)
qed

lemma plainInputs_entry:
  "plainInputs resolved \<Longrightarrow> (k, valuePieces) \<in> set resolved \<Longrightarrow>
     braceFree k \<and> plainTemplate valuePieces \<and>
     (\<forall>key \<in> fst ` set resolved. Marker key \<notin> set valuePieces)"
  by (fastforce simp: plainInputs_def list_all_iff)

lemma plainTemplate_expand:
  assumes "plainTemplate pieces" and "plainInputs resolved"
  shows "plainTemplate (expand resolved pieces)"
  using assms(1)
proof (induction pieces)
  case Nil
  then show ?case by (simp add: expand_Nil plainTemplate_def)
next
  case (Cons p pieces)
  then have ih: "plainTemplate (expand resolved pieces)" and p: "plainPiece p"
    by (simp_all add: plainTemplate_def)
  have "plainTemplate (expandPiece resolved p)"
  proof (cases p)
    case (Text t)
    with p show ?thesis by (simp add: plainTemplate_def)
  next
    case (Marker n)
    show ?thesis
    proof (cases "map_of resolved n")
      case None
      with Marker p show ?thesis by (simp add: plainTemplate_def)
    next
      case (Some valuePieces)
      then have "(n, valuePieces) \<in> set resolved"
        by (rule map_of_SomeD)
      from plainInputs_entry [OF assms(2) this] Marker Some show ?thesis
        by simp
    qed
  qed
  with ih show ?case
    by (simp add: expand_Cons plainTemplate_append)
qed

lemma no_key_in_expand:
  assumes "plainInputs resolved" and "key \<in> fst ` set resolved"
  shows "Marker key \<notin> set (expand resolved pieces)"
proof (induction pieces)
  case Nil
  then show ?case by (simp add: expand_Nil)
next
  case (Cons p pieces)
  have "Marker key \<notin> set (expandPiece resolved p)"
  proof (cases p)
    case (Text t)
    then show ?thesis by simp
  next
    case (Marker n)
    show ?thesis
    proof (cases "map_of resolved n")
      case None
      then have "n \<notin> fst ` set resolved"
        by (simp add: map_of_eq_None_iff)
      with assms(2) have "n \<noteq> key"
        by auto
      with Marker None show ?thesis by simp
    next
      case (Some valuePieces)
      then have "(n, valuePieces) \<in> set resolved"
        by (rule map_of_SomeD)
      from plainInputs_entry [OF assms(1) this] assms(2) Marker Some show ?thesis
        by auto
    qed
  qed
  with Cons show ?case
    by (simp add: expand_Cons)
qed

lemma ReplaceAll_absent:
  "old \<noteq> [] \<Longrightarrow> \<not> sublist old s \<Longrightarrow> strings_ReplaceAll s old new = s"
proof (induction s)
  case Nil
  then show ?case by (simp add: ReplaceAll_Nil)
next
  case (Cons c cs)
  then have "\<not> prefix old (c # cs)" "\<not> sublist old cs"
    by (auto simp: sublist_Cons_right)
  with Cons show ?case
    by (simp add: ReplaceAll_step)
qed

lemma ReplaceAll_contains_new:
  "old \<noteq> [] \<Longrightarrow> sublist old s \<Longrightarrow> sublist new (strings_ReplaceAll s old new)"
proof (induction s old new rule: strings_ReplaceAll.induct)
  case (1 old new)
  then show ?case by simp
next
  case (2 c cs old new)
  show ?case
  proof (cases "prefix old (c # cs)")
    case True
    with 2(4) show ?thesis
      by (simp add: strings_ReplaceAll.simps)
  next
    case False
    with 2(5) have "sublist old cs"
      by (simp add: sublist_Cons_right)
    from 2(3) [OF 2(4) False 2(4) this] False 2(4) show ?thesis
      by (simp add: ReplaceAll_step sublist_Cons_right)
  qed
qed

lemma ReplaceAll_prefix_kept:
  "old \<noteq> [] \<Longrightarrow> new \<noteq> [] \<Longrightarrow> set q \<inter> set new = {} \<Longrightarrow>
     prefix q (strings_ReplaceAll s old new) \<Longrightarrow> prefix q s"
proof (induction s old new arbitrary: q rule: strings_ReplaceAll.induct)
  case (1 old new)
  then show ?case by (simp add: ReplaceAll_Nil)
next
  case (2 c cs old new)
  show ?case
  proof (cases "prefix old (c # cs)")
    case True
    with 2(4) have out: "strings_ReplaceAll (c # cs) old new =
        new @ strings_ReplaceAll (drop (length old) (c # cs)) old new"
      by (simp add: strings_ReplaceAll.simps)
    from 2(5) obtain a new' where new: "new = a # new'"
      by (cases new) auto
    have "q = []"
    proof (cases q)
      case Nil
      then show ?thesis .
    next
      case (Cons b q')
      with 2(7) out new have "b = a"
        by simp
      with Cons new 2(6) show ?thesis
        by auto
    qed
    then show ?thesis by simp
  next
    case False
    with 2(4) have out: "strings_ReplaceAll (c # cs) old new = c # strings_ReplaceAll cs old new"
      by (simp add: ReplaceAll_step)
    show ?thesis
    proof (cases q)
      case Nil
      then show ?thesis by simp
    next
      case (Cons b q')
      with 2(7) out have b: "b = c" and rest: "prefix q' (strings_ReplaceAll cs old new)"
        by simp_all
      from Cons 2(6) have "set q' \<inter> set new = {}"
        by auto
      from 2(3) [OF 2(4) False 2(4) 2(5) this rest] Cons b show ?thesis
        by simp
    qed
  qed
qed

lemma ReplaceAll_none_left:
  "old \<noteq> [] \<Longrightarrow> new \<noteq> [] \<Longrightarrow> set old \<inter> set new = {} \<Longrightarrow>
     \<not> sublist old (strings_ReplaceAll s old new)"
proof (induction s old new rule: strings_ReplaceAll.induct)
  case (1 old new)
  then show ?case by (simp add: ReplaceAll_Nil)
next
  case (2 c cs old new)
  show ?case
  proof (cases "prefix old (c # cs)")
    case True
    let ?r = "strings_ReplaceAll (drop (length old) (c # cs)) old new"
    from True 2(4) have out: "strings_ReplaceAll (c # cs) old new = new @ ?r"
      by (simp add: strings_ReplaceAll.simps)
    from 2(2) [OF 2(4) True 2(4) 2(5) 2(6)] have ih: "\<not> sublist old ?r" .
    have "\<not> sublist old (new @ ?r)"
    proof
      assume "sublist old (new @ ?r)"
      then consider "sublist old new" | "sublist old ?r"
        | p1 p2 where "old = p1 @ p2" "suffix p1 new" "prefix p2 ?r"
        by (auto simp: sublist_append)
      then show False
      proof cases
        case 1
        then have "set old \<subseteq> set new"
          by (rule set_mono_sublist)
        with 2(4) 2(6) show False
          by (cases old) auto
      next
        case 2
        with ih show False by simp
      next
        case 3
        show False
        proof (cases p1)
          case Nil
          with 3 ih show False by auto
        next
          case (Cons a p1')
          with 3(2) have "a \<in> set new"
            by (auto simp: suffix_def)
          moreover from Cons 3(1) have "a \<in> set old"
            by simp
          ultimately show False
            using 2(6) by auto
        qed
      qed
    qed
    with out show ?thesis by simp
  next
    case False
    with 2(4) have out: "strings_ReplaceAll (c # cs) old new = c # strings_ReplaceAll cs old new"
      by (simp add: ReplaceAll_step)
    from 2(3) [OF 2(4) False 2(4) 2(5) 2(6)]
    have ih: "\<not> sublist old (strings_ReplaceAll cs old new)" .
    have "\<not> prefix old (c # strings_ReplaceAll cs old new)"
    proof
      assume "prefix old (c # strings_ReplaceAll cs old new)"
      with out have "prefix old (strings_ReplaceAll (c # cs) old new)"
        by simp
      from ReplaceAll_prefix_kept [OF 2(4) 2(5) 2(6) this] False show False
        by simp
    qed
    with ih out show ?thesis
      by (simp add: sublist_Cons_right)
  qed
qed

lemma renderPiece_in_render: "p \<in> set pieces \<Longrightarrow> sublist (renderPiece p) (render pieces)"
proof -
  assume "p \<in> set pieces"
  then obtain a b where "pieces = a @ p # b"
    by (auto dest: split_list)
  then have "render pieces = render a @ renderPiece p @ render b"
    by (simp add: render_def)
  then show ?thesis
    by simp
qed

lemma marker_not_in_text:
  "noMarkerStart t \<Longrightarrow> sublist (marker k) (t @ r) \<Longrightarrow> sublist (marker k) r"
proof (induction t rule: noMarkerStart.induct)
  case 1
  then show ?case by simp
next
  case (2 c)
  then have "\<not> prefix (marker k) (c # r)"
    using marker_prefix_Cons by fastforce
  with "2.prems"(2) show ?case
    by (simp add: sublist_Cons_right)
next
  case (3 c d t)
  then have "\<not> prefix (marker k) (c # d # t @ r)" and rest: "noMarkerStart (d # t)"
    using marker_prefix_Cons_Cons by fastforce+
  with "3.prems"(2) have "sublist (marker k) ((d # t) @ r)"
    by (simp add: sublist_Cons_right)
  with "3.IH" [OF rest] show ?case .
qed

lemma marker_not_in_other_marker:
  assumes "braceFree k" "braceFree n" "n \<noteq> k" "sublist (marker k) (marker n @ r)"
  shows "sublist (marker k) r"
proof -
  have first: "\<not> prefix (marker k) (CHR ''{'' # CHR ''{'' # n @ ''}}'' @ r)"
    using other_name_no_prefix [OF assms(1-3), of r] by (simp add: marker_def)
  have second: "\<not> prefix (marker k) (CHR ''{'' # n @ ''}}'' @ r)"
    using assms(2) by (cases n) (auto simp: marker_def braceFree_def)
  have tail: "noMarkerStart (n @ ''}}'')"
    using assms(2) by (intro noMarkerStart_without_open) (simp add: braceFree_def)
  have "marker n @ r = CHR ''{'' # CHR ''{'' # n @ ''}}'' @ r"
    by (simp add: marker_def)
  with assms(4) first second have "sublist (marker k) ((n @ ''}}'') @ r)"
    by (simp add: sublist_Cons_right)
  then show ?thesis
    by (rule marker_not_in_text [OF tail])
qed

lemma render_without_marker:
  "plainTemplate pieces \<Longrightarrow> braceFree k \<Longrightarrow> Marker k \<notin> set pieces \<Longrightarrow>
     \<not> sublist (marker k) (render pieces)"
proof (induction pieces)
  case Nil
  then show ?case by (simp add: render_def marker_def)
next
  case (Cons p pieces)
  then have ih: "\<not> sublist (marker k) (render pieces)" and p: "plainPiece p"
    by (simp_all add: plainTemplate_def)
  show ?case
  proof
    assume occ: "sublist (marker k) (render (p # pieces))"
    show False
    proof (cases p)
      case (Text t)
      with occ p ih marker_not_in_text [of t k "render pieces"] show False
        by (simp add: render_Cons)
    next
      case (Marker n)
      with Cons.prems(3) have "n \<noteq> k"
        by auto
      with Marker occ p ih Cons.prems(2)
        marker_not_in_other_marker [of k n "render pieces"] show False
        by (simp add: render_Cons)
    qed
  qed
qed

subsection \<open>The loop and the one pass\<close>

declare onePass.simps [simp del]

lemma find_Some_set: "find P xs = Some x \<Longrightarrow> x \<in> set xs \<and> P x"
  by (induction xs) (auto split: if_splits)

lemma marker_unique:
  assumes "braceFree k" "braceFree n" "prefix (marker k) (marker n @ r)"
  shows "k = n"
proof (rule ccontr)
  assume "k \<noteq> n"
  then have "n \<noteq> k"
    by simp
  from other_name_no_prefix [OF assms(1,2) this, of r] assms(3) show False
    by (simp add: marker_def)
qed

lemma find_marker:
  assumes "\<forall>(k, v) \<in> set inputs. braceFree k" and "braceFree n"
  shows "find (\<lambda>(k, v). prefix (marker k) (marker n @ r)) inputs =
           map_option (Pair n) (map_of inputs n)"
  using assms(1)
proof (induction inputs)
  case Nil
  then show ?case by simp
next
  case (Cons kv inputs)
  obtain k v where kv: "kv = (k, v)"
    by (cases kv)
  with Cons.prems have k: "braceFree k"
    by simp
  have "prefix (marker k) (marker n @ r) \<longleftrightarrow> k = n"
    using marker_unique [OF k assms(2)] by auto
  with Cons kv show ?case
    by auto
qed

lemma onePass_Nil: "onePass inputs [] = []"
  by (simp add: onePass.simps)

lemma onePass_step:
  "\<forall>(k, v) \<in> set inputs. \<not> prefix (marker k) (c # cs) \<Longrightarrow>
     onePass inputs (c # cs) = c # onePass inputs cs"
proof -
  assume "\<forall>(k, v) \<in> set inputs. \<not> prefix (marker k) (c # cs)"
  then have "find (\<lambda>(k, v). prefix (marker k) (c # cs)) inputs = None"
    by (auto simp: find_None_iff)
  then show ?thesis
    by (simp add: onePass.simps)
qed

lemma onePass_found:
  assumes "find (\<lambda>(k, v). prefix (marker k) s) inputs = Some (n, w)"
  shows "\<exists>r. s = marker n @ r \<and> onePass inputs s = w @ onePass inputs r"
proof -
  from find_Some_set [OF assms] have "prefix (marker n) s"
    by simp
  then obtain r where r: "s = marker n @ r"
    by (auto simp: prefix_def)
  then obtain c cs where s: "s = c # cs"
    by (cases s) (auto simp: marker_def)
  from assms have "onePass inputs (c # cs) =
      w @ onePass inputs (drop (length (marker n)) (c # cs))"
    unfolding s by (simp add: onePass.simps)
  then have "onePass inputs s = w @ onePass inputs (drop (length (marker n)) s)"
    by (simp only: s)
  moreover have "drop (length (marker n)) s = r"
    by (simp add: r)
  ultimately have "onePass inputs s = w @ onePass inputs r"
    by simp
  with r show ?thesis
    by blast
qed

lemma onePass_skip_text:
  "noMarkerStart t \<Longrightarrow> onePass inputs (t @ s) = t @ onePass inputs s"
proof (induction t rule: noMarkerStart.induct)
  case 1
  then show ?case by simp
next
  case (2 c)
  then have "\<forall>(k, v) \<in> set inputs. \<not> prefix (marker k) (c # s)"
    using marker_prefix_Cons by fastforce
  then show ?case
    by (simp add: onePass_step)
next
  case (3 c d t)
  then have "\<forall>(k, v) \<in> set inputs. \<not> prefix (marker k) (c # d # t @ s)"
    and rest: "noMarkerStart (d # t)"
    using marker_prefix_Cons_Cons by fastforce+
  with "3.IH" [OF rest] show ?case
    by (simp add: onePass_step)
qed

lemma onePass_at_marker:
  assumes "\<forall>(k, v) \<in> set inputs. braceFree k" and "braceFree n"
  shows "onePass inputs (marker n @ r) =
           (case map_of inputs n of
              Some v \<Rightarrow> v @ onePass inputs r
            | None \<Rightarrow> marker n @ onePass inputs r)"
proof (cases "map_of inputs n")
  case None
  with find_marker [OF assms, of r]
  have "find (\<lambda>(k, v). prefix (marker k) (marker n @ r)) inputs = None"
    by simp
  then have first: "onePass inputs (marker n @ r) =
      CHR ''{'' # onePass inputs ((CHR ''{'' # n @ ''}}'') @ r)"
    by (simp add: marker_def onePass.simps)
  have "noMarkerStart (CHR ''{'' # n @ ''}}'')"
    using assms(2) noMarkerStart_without_open [of "n @ ''}}''"]
    by (cases n) (auto simp: braceFree_def)
  from onePass_skip_text [OF this, of inputs r] first None show ?thesis
    by (simp add: marker_def)
next
  case (Some v)
  with find_marker [OF assms, of r]
  have "find (\<lambda>(k, v). prefix (marker k) (marker n @ r)) inputs = Some (n, v)"
    by simp
  from onePass_found [OF this] Some show ?thesis
    by simp
qed

text \<open>A marker cannot begin in a text and end in a marker that follows the text.\<close>

lemma no_straddle:
  assumes "braceFree k" and "t \<noteq> []" and "prefix (marker k) (t @ z)" and "prefix ''{{'' z"
  shows "prefix (marker k) t"
proof -
  from assms(3) consider "prefix (marker k) t"
    | us where "marker k = t @ us" "us \<noteq> []" "prefix us z"
    by (cases "prefix (marker k) t") (auto simp: prefix_append)
  then show ?thesis
  proof cases
    case 1
    then show ?thesis .
  next
    case 2
    from assms(4) obtain z' where z: "z = CHR ''{'' # CHR ''{'' # z'"
      by (auto simp: prefix_def)
    with 2(2,3) obtain us' where us: "us = CHR ''{'' # us'" and us': "prefix us' (CHR ''{'' # z')"
      by (cases us) auto
    obtain a t' where t: "t = a # t'"
      using assms(2) by (cases t) auto
    from 2(1) have "CHR ''{'' # CHR ''{'' # k @ ''}}'' = (a # t') @ CHR ''{'' # us'"
      by (simp only: marker_def us t append_Cons append_Nil)
    then have eq: "CHR ''{'' # k @ ''}}'' = t' @ CHR ''{'' # us'"
      by auto
    show ?thesis
    proof (cases t')
      case Nil
      with eq have "k @ ''}}'' = us'"
        by simp
      with us' assms(1) show ?thesis
        by (cases k) (auto simp: braceFree_def)
    next
      case (Cons b t'')
      with eq have "k @ ''}}'' = t'' @ CHR ''{'' # us'"
        by simp
      then have "CHR ''{'' \<in> set (k @ ''}}'')"
        by simp
      with assms(1) show ?thesis
        by (simp add: braceFree_def)
    qed
  qed
qed

text \<open>The pass keeps a text in which no marker of a resolved name occurs.\<close>

lemma onePass_skip:
  assumes "\<forall>(k, v) \<in> set inputs. braceFree k \<and> \<not> sublist (marker k) u"
    and "z = [] \<or> prefix ''{{'' z"
  shows "onePass inputs (u @ z) = u @ onePass inputs z"
  using assms(1)
proof (induction u)
  case Nil
  then show ?case by simp
next
  case (Cons c u)
  have "\<not> prefix (marker k) (c # u @ z)" if "(k, v) \<in> set inputs" for k v
  proof
    assume p: "prefix (marker k) (c # u @ z)"
    from that Cons.prems have k: "braceFree k" and no: "\<not> sublist (marker k) (c # u)"
      by auto
    have "prefix (marker k) (c # u)"
    proof (cases "z = []")
      case True
      with p show ?thesis by simp
    next
      case False
      with assms(2) have "prefix ''{{'' z"
        by simp
      from no_straddle [OF k _ _ this, of "c # u"] p show ?thesis
        by simp
    qed
    then have "sublist (marker k) (c # u)"
      by (rule prefix_imp_sublist)
    with no show False ..
  qed
  then have step: "onePass inputs (c # u @ z) = c # onePass inputs (u @ z)"
    by (intro onePass_step) auto
  from Cons.prems have "\<forall>(k, v) \<in> set inputs. braceFree k \<and> \<not> sublist (marker k) u"
    by (auto simp: sublist_Cons_right)
  from Cons.IH [OF this] step show ?case
    by simp
qed

text \<open>
  One round of the loop, for the first name of the map: if the one pass with all names
  leaves no marker of a later name, the pass with the later names over the output of the
  round gives the same text.
\<close>

lemma one_round:
  assumes k: "braceFree k" and rest: "\<forall>(k', v') \<in> set rest. braceFree k'"
  shows "\<forall>(k', v') \<in> set rest. \<not> sublist (marker k') (u @ onePass ((k, v) # rest) s) \<Longrightarrow>
     onePass rest (u @ strings_ReplaceAll s (marker k) v) = u @ onePass ((k, v) # rest) s"
proof (induction "length s" arbitrary: s u rule: less_induct)
  case less
  have all: "\<forall>(k', v') \<in> set ((k, v) # rest). braceFree k'"
    using k rest by simp
  have clean_u: "\<forall>(k', v') \<in> set rest. braceFree k' \<and> \<not> sublist (marker k') u"
    using less.prems rest by (auto simp: sublist_append)
  show ?case
  proof (cases s)
    case Nil
    from onePass_skip [OF clean_u, of "[]"] Nil show ?thesis
      by (simp add: ReplaceAll_Nil marker_not_Nil onePass_Nil)
  next
    case (Cons c cs)
    show ?thesis
    proof (cases "prefix (marker k) s")
      case True
      then obtain s' where s: "s = marker k @ s'"
        by (auto simp: prefix_def)
      have one: "onePass ((k, v) # rest) s = v @ onePass ((k, v) # rest) s'"
        unfolding s using onePass_at_marker [OF all k, of s'] by simp
      have rep: "strings_ReplaceAll s (marker k) v = v @ strings_ReplaceAll s' (marker k) v"
        unfolding s by (rule ReplaceAll_match [OF marker_not_Nil])
      have shorter: "length s' < length s"
        by (simp add: s marker_def)
      have "\<forall>(k', v') \<in> set rest.
          \<not> sublist (marker k') ((u @ v) @ onePass ((k, v) # rest) s')"
        using less.prems by (simp add: one)
      from less.hyps [OF shorter this] show ?thesis
        by (simp add: one rep)
    next
      case False
      have rep: "strings_ReplaceAll s (marker k) v = c # strings_ReplaceAll cs (marker k) v"
        using False unfolding Cons by (intro ReplaceAll_step marker_not_Nil)
      show ?thesis
      proof (cases "find (\<lambda>(k', v'). prefix (marker k') s) rest")
        case None
        then have "\<forall>(k', v') \<in> set ((k, v) # rest). \<not> prefix (marker k') (c # cs)"
          using False by (auto simp: find_None_iff Cons)
        then have one: "onePass ((k, v) # rest) s = c # onePass ((k, v) # rest) cs"
          unfolding Cons by (rule onePass_step)
        have later: "\<forall>(k', v') \<in> set rest.
            \<not> sublist (marker k') ((u @ [c]) @ onePass ((k, v) # rest) cs)"
          using less.prems by (simp add: one)
        have shorter: "length cs < length s"
          by (simp add: Cons)
        from less.hyps [OF shorter later] show ?thesis
          by (simp add: one rep)
      next
        case (Some nw)
        obtain n w where nw: "nw = (n, w)"
          by (cases nw)
        from find_Some_set [OF Some] nw have entry: "(n, w) \<in> set rest"
          and pre: "prefix (marker n) s"
          by simp_all
        from entry rest have n: "braceFree n"
          by auto
        from pre obtain s' where s: "s = marker n @ s'"
          by (auto simp: prefix_def)
        from pre False have differ: "n \<noteq> k"
          by auto
        from Some nw find_marker [OF rest n, of s'] have w: "map_of rest n = Some w"
          by (auto simp: s)
        have one: "onePass ((k, v) # rest) s = w @ onePass ((k, v) # rest) s'"
          unfolding s using onePass_at_marker [OF all n, of s'] w differ by simp
        have rep': "strings_ReplaceAll s (marker k) v =
            marker n @ strings_ReplaceAll s' (marker k) v"
          unfolding s by (rule ReplaceAll_skip_marker [OF k n differ])
        have opens: "prefix ''{{'' (marker n @ strings_ReplaceAll s' (marker k) v)"
          by (simp add: marker_def)
        have skip: "onePass rest (u @ marker n @ strings_ReplaceAll s' (marker k) v) =
            u @ onePass rest (marker n @ strings_ReplaceAll s' (marker k) v)"
          by (rule onePass_skip [OF clean_u]) (simp add: opens)
        have at: "onePass rest (marker n @ strings_ReplaceAll s' (marker k) v) =
            w @ onePass rest (strings_ReplaceAll s' (marker k) v)"
          using onePass_at_marker [OF rest n] w by simp
        have shorter: "length s' < length s"
          by (simp add: s marker_def)
        have "\<forall>(k', v') \<in> set rest. \<not> sublist (marker k') ([] @ onePass ((k, v) # rest) s')"
          using less.prems by (auto simp: one sublist_append)
        from less.hyps [OF shorter this]
        have "onePass rest (strings_ReplaceAll s' (marker k) v) = onePass ((k, v) # rest) s'"
          by simp
        with skip at show ?thesis
          by (simp add: one rep')
      qed
    qed
  qed
qed

lemma onePass_no_names: "onePass [] s = s"
  using onePass_skip [of "[]" s "[]"] by (simp add: onePass_Nil)

lemma fold_onePass:
  "\<forall>(k, v) \<in> set inputs. braceFree k \<Longrightarrow>
   \<forall>(k, v) \<in> set inputs. \<not> sublist (marker k) (onePass inputs s) \<Longrightarrow>
     fold (\<lambda>(oldString, newString) fileString.
             strings_ReplaceAll fileString (''{{'' @ oldString @ ''}}'') newString)
       inputs s = onePass inputs s"
proof (induction inputs arbitrary: s)
  case Nil
  then show ?case by (simp add: onePass_no_names)
next
  case (Cons kv inputs)
  obtain k v where kv: "kv = (k, v)"
    by (cases kv)
  let ?f = "\<lambda>(oldString, newString) fileString.
             strings_ReplaceAll fileString (''{{'' @ oldString @ ''}}'') newString"
  from Cons.prems(1) kv have k: "braceFree k" and rest: "\<forall>(k', v') \<in> set inputs. braceFree k'"
    by simp_all
  from Cons.prems(2) kv
  have clean: "\<forall>(k', v') \<in> set inputs. \<not> sublist (marker k') ([] @ onePass ((k, v) # inputs) s)"
    by simp
  from one_round [OF k rest clean]
  have round: "onePass inputs (strings_ReplaceAll s (marker k) v) = onePass ((k, v) # inputs) s"
    by simp
  with clean have "\<forall>(k', v') \<in> set inputs.
      \<not> sublist (marker k') (onePass inputs (strings_ReplaceAll s (marker k) v))"
    by simp
  from Cons.IH [OF rest this] round show ?case
    by (simp add: kv marker_def)
qed

lemma onePass_contains:
  assumes "\<forall>(k, v) \<in> set inputs. braceFree k" and "map_of inputs name = Some v"
  shows "sublist (marker name) s \<Longrightarrow> sublist v (onePass inputs s)"
proof (induction "length s" arbitrary: s rule: less_induct)
  case less
  from assms(2) have entry: "(name, v) \<in> set inputs"
    by (rule map_of_SomeD)
  with assms(1) have name: "braceFree name"
    by auto
  show ?case
  proof (cases s)
    case Nil
    with less.prems show ?thesis
      by (simp add: marker_def)
  next
    case (Cons c cs)
    show ?thesis
    proof (cases "find (\<lambda>(k, v). prefix (marker k) s) inputs")
      case None
      then have no: "\<forall>(k, v) \<in> set inputs. \<not> prefix (marker k) (c # cs)"
        by (auto simp: find_None_iff Cons)
      with entry have "\<not> prefix (marker name) (c # cs)"
        by auto
      with less.prems Cons have "sublist (marker name) cs"
        by (simp add: sublist_Cons_right)
      from less.hyps [OF _ this] Cons have "sublist v (onePass inputs cs)"
        by simp
      with onePass_step [OF no] Cons show ?thesis
        by (simp add: sublist_Cons_right)
    next
      case (Some nw)
      obtain n w where nw: "nw = (n, w)"
        by (cases nw)
      from onePass_found [OF Some [unfolded nw]]
      obtain r where s: "s = marker n @ r" and out: "onePass inputs s = w @ onePass inputs r"
        by blast
      from find_Some_set [OF Some] nw assms(1) have n: "braceFree n"
        by auto
      from Some nw find_marker [OF assms(1) n, of r] have w: "map_of inputs n = Some w"
        by (auto simp: s)
      show ?thesis
      proof (cases "n = name")
        case True
        with w assms(2) out show ?thesis
          by (simp add: sublist_append)
      next
        case False
        with less.prems s marker_not_in_other_marker [OF name n, of r]
        have "sublist (marker name) r"
          by simp
        from less.hyps [OF _ this] s have "sublist v (onePass inputs r)"
          by (simp add: marker_def)
        with out show ?thesis
          by (simp add: sublist_append)
      qed
    qed
  qed
qed

lemma find_same_map:
  assumes "\<forall>(k, v) \<in> set a. braceFree k" and "\<forall>(k, v) \<in> set b. braceFree k"
    and "map_of a = map_of b"
  shows "find (\<lambda>(k, v). prefix (marker k) s) a = find (\<lambda>(k, v). prefix (marker k) s) b"
proof -
  have one: "find (\<lambda>(k, v). prefix (marker k) s) y = Some (n, w)"
    if "find (\<lambda>(k, v). prefix (marker k) s) x = Some (n, w)"
      and x: "\<forall>(k, v) \<in> set x. braceFree k" and y: "\<forall>(k, v) \<in> set y. braceFree k"
      and "map_of x = map_of y" for x y n w
  proof -
    from find_Some_set [OF that(1)] x have n: "braceFree n" and "prefix (marker n) s"
      by auto
    then obtain r where s: "s = marker n @ r"
      by (auto simp: prefix_def)
    from that(1,4) find_marker [OF x n, of r] find_marker [OF y n, of r] show ?thesis
      by (simp add: s)
  qed
  show ?thesis
  proof (cases "find (\<lambda>(k, v). prefix (marker k) s) a")
    case None
    show ?thesis
    proof (cases "find (\<lambda>(k, v). prefix (marker k) s) b")
      case None
      with \<open>find (\<lambda>(k, v). prefix (marker k) s) a = None\<close> show ?thesis
        by simp
    next
      case (Some nw)
      obtain n w where "nw = (n, w)"
        by (cases nw)
      with Some one [of b n w a] assms None show ?thesis
        by simp
    qed
  next
    case (Some nw)
    obtain n w where "nw = (n, w)"
      by (cases nw)
    with Some one [of a n w b] assms show ?thesis
      by simp
  qed
qed

lemma onePass_same_map:
  assumes "\<forall>(k, v) \<in> set a. braceFree k" and "\<forall>(k, v) \<in> set b. braceFree k"
    and "map_of a = map_of b"
  shows "onePass a s = onePass b s"
proof (induction "length s" arbitrary: s rule: less_induct)
  case less
  show ?case
  proof (cases s)
    case Nil
    then show ?thesis by (simp add: onePass_Nil)
  next
    case (Cons c cs)
    have same: "find (\<lambda>(k, v). prefix (marker k) s) a = find (\<lambda>(k, v). prefix (marker k) s) b"
      by (rule find_same_map [OF assms])
    show ?thesis
    proof (cases "find (\<lambda>(k, v). prefix (marker k) s) a")
      case None
      then have na: "\<forall>(k, v) \<in> set a. \<not> prefix (marker k) (c # cs)"
        by (auto simp: find_None_iff Cons)
      from None same have "find (\<lambda>(k, v). prefix (marker k) s) b = None"
        by simp
      then have nb: "\<forall>(k, v) \<in> set b. \<not> prefix (marker k) (c # cs)"
        by (auto simp: find_None_iff Cons)
      from na nb have "onePass a s = c # onePass a cs" and "onePass b s = c # onePass b cs"
        unfolding Cons by (auto intro: onePass_step)
      with less.hyps [of cs] Cons show ?thesis
        by simp
    next
      case (Some nw)
      obtain n w where nw: "nw = (n, w)"
        by (cases nw)
      from onePass_found [OF Some [unfolded nw]]
      obtain r where s: "s = marker n @ r" and a: "onePass a s = w @ onePass a r"
        by blast
      from Some same nw have "find (\<lambda>(k, v). prefix (marker k) s) b = Some (n, w)"
        by simp
      from onePass_found [OF this] s have b: "onePass b s = w @ onePass b r"
        by auto
      from less.hyps [of r] s have "onePass a r = onePass b r"
        by (simp add: marker_def)
      with a b show ?thesis
        by simp
    qed
  qed
qed

lemma onePass_render:
  assumes "\<forall>(k, v) \<in> set inputs. braceFree k"
  shows "plainTemplate pieces \<Longrightarrow>
     onePass inputs (render pieces) = render (map (specSubstitute inputs) pieces)"
proof (induction pieces)
  case Nil
  then show ?case by (simp add: render_Nil onePass_Nil)
next
  case (Cons p pieces)
  then have ih: "onePass inputs (render pieces) = render (map (specSubstitute inputs) pieces)"
    and p: "plainPiece p"
    by (simp_all add: plainTemplate_def)
  show ?case
  proof (cases p)
    case (Text t)
    with p ih onePass_skip_text [of t inputs "render pieces"] show ?thesis
      by (simp add: render_Cons)
  next
    case (Marker n)
    with p ih onePass_at_marker [OF assms, of n "render pieces"] show ?thesis
      by (simp add: render_Cons split: option.splits)
  qed
qed

text \<open>
  Where the one pass leaves a marker of a resolved name, the order of the map decides the
  output of the loop: a text with a \<open>{{\<close> that opens no marker, a value that ends in \<open>{\<close>,
  and a text that ends in \<open>{\<close> before a marker.
\<close>

lemma single_braces_matter:
  "handleTemplateReplacement (Inr ''{{A{{B}}}}'') [(''A'', ''x''), (''B'', [])] = Inr ''{{A}}'' \<and>
   handleTemplateReplacement (Inr ''{{A{{B}}}}'') [(''B'', []), (''A'', ''x'')] = Inr ''x'' \<and>
   handleTemplateReplacement (Inr ''{{A}}{B}}'') [(''A'', ''{''), (''B'', ''x'')] = Inr ''x'' \<and>
   handleTemplateReplacement (Inr ''{{A}}{B}}'') [(''B'', ''x''), (''A'', ''{'')] = Inr ''{{B}}'' \<and>
   handleTemplateReplacement (Inr ''x{{{A}}'') [(''A'', ''{B}}''), (''B'', ''v'')] = Inr ''xv'' \<and>
   handleTemplateReplacement (Inr ''x{{{A}}'') [(''B'', ''v''), (''A'', ''{B}}'')] = Inr ''x{{B}}''"
  by (simp add: handleTemplateReplacement_def strings_ReplaceAll.simps)

text \<open>
  C6 (as the code has it). The resolved names have no brace. If the one pass over the file
  leaves no marker of a resolved name, \<open>handleTemplateReplacement\<close> returns the output of
  the one pass: every marker of a resolved name replaced by that name's value, every marker
  of another name and all other text unchanged; the value of a resolved name whose marker
  is in the file is in the output; and the map in any other order gives the same output.
  The one pass leaves no marker of a resolved name whenever the template is well formed
  (every \<open>{{\<close> in it opens a marker whose name has no brace) and every resolved value is
  such a template that holds no marker of a resolved name. For any file that contains
  \<open>{{FOO}}\<close> and the map with the single entry \<open>FOO = bar\<close>, the output contains \<open>bar\<close> and
  no \<open>{{FOO}}\<close>. A file in which no marker of a resolved name occurs is returned
  unchanged, whatever the names and the values are.
\<close>

theorem C6_markers_replaced:
  assumes "\<forall>(k, v) \<in> set customInputs. braceFree k"
    and "\<forall>(k, v) \<in> set customInputs. \<not> sublist (''{{'' @ k @ ''}}'') (onePass customInputs file)"
    and "plainTemplate pieces" and "plainInputs resolved"
    and "sublist ''{{FOO}}'' fooFile"
    and "\<forall>(k, v) \<in> set others. \<not> sublist (''{{'' @ k @ ''}}'') untouched"
  shows "handleTemplateReplacement (Inr file) customInputs = Inr (onePass customInputs file) \<and>
         (\<forall>name v. map_of customInputs name = Some v \<and> sublist (''{{'' @ name @ ''}}'') file \<longrightarrow>
            sublist v (onePass customInputs file)) \<and>
         (\<forall>reordered. set reordered = set customInputs \<and> distinct (map fst customInputs) \<and>
                      distinct (map fst reordered) \<longrightarrow>
            handleTemplateReplacement (Inr file) reordered = Inr (onePass customInputs file)) \<and>
         (onePass (spelled resolved) (render pieces) =
            render (map (specSubstitute (spelled resolved)) pieces) \<and>
          (\<forall>(k, v) \<in> set (spelled resolved).
             braceFree k \<and>
             \<not> sublist (''{{'' @ k @ ''}}'') (onePass (spelled resolved) (render pieces)))) \<and>
         (\<exists>out. handleTemplateReplacement (Inr fooFile) [(''FOO'', ''bar'')] = Inr out \<and>
            sublist ''bar'' out \<and> \<not> sublist ''{{FOO}}'' out) \<and>
         handleTemplateReplacement (Inr untouched) others = Inr untouched"
proof -
  have clean: "\<forall>(k, v) \<in> set customInputs. \<not> sublist (marker k) (onePass customInputs file)"
    using assms(2) by (simp add: marker_def)
  have a: "handleTemplateReplacement (Inr file) customInputs = Inr (onePass customInputs file)"
    using fold_onePass [OF assms(1) clean] by (simp add: handleTemplateReplacement_def)
  have b: "sublist v (onePass customInputs file)"
    if "map_of customInputs name = Some v" and "sublist (''{{'' @ name @ ''}}'') file" for name v
    using onePass_contains [OF assms(1) that(1), of "file"] that(2) by (simp add: marker_def)
  have o: "handleTemplateReplacement (Inr file) reordered = Inr (onePass customInputs file)"
    if same: "set reordered = set customInputs" and d: "distinct (map fst customInputs)"
      and d': "distinct (map fst reordered)" for reordered
  proof -
    from same assms(1) have names: "\<forall>(k, v) \<in> set reordered. braceFree k"
      by simp
    from same d d' have "map_of reordered = map_of customInputs"
      by (simp add: map_of_inject_set)
    from onePass_same_map [OF names assms(1) this]
    have pass: "onePass reordered file = onePass customInputs file" .
    with clean same have "\<forall>(k, v) \<in> set reordered. \<not> sublist (marker k) (onePass reordered file)"
      by simp
    from fold_onePass [OF names this] pass show ?thesis
      by (simp add: handleTemplateReplacement_def)
  qed
  have names: "\<forall>(k, v) \<in> set (spelled resolved). braceFree k"
    using plainInputs_entry [OF assms(4)] by (fastforce simp: spelled_def)
  have pass: "onePass (spelled resolved) (render pieces) =
      render (map (specSubstitute (spelled resolved)) pieces)"
    by (rule onePass_render [OF names assms(3)])
  have gone: "\<not> sublist (''{{'' @ k @ ''}}'') (onePass (spelled resolved) (render pieces))"
    if "(k, v) \<in> set (spelled resolved)" for k v
  proof -
    from that have key: "k \<in> fst ` set resolved"
      by (force simp: spelled_def)
    from that names have k: "braceFree k"
      by auto
    from render_without_marker
      [OF plainTemplate_expand [OF assms(3,4)] k no_key_in_expand [OF assms(4) key]]
    show ?thesis
      by (simp add: marker_def pass render_specSubstitute)
  qed
  have s: "onePass (spelled resolved) (render pieces) =
        render (map (specSubstitute (spelled resolved)) pieces) \<and>
      (\<forall>(k, v) \<in> set (spelled resolved).
         braceFree k \<and>
         \<not> sublist (''{{'' @ k @ ''}}'') (onePass (spelled resolved) (render pieces)))"
    using pass names gone by blast
  have c: "\<exists>out. handleTemplateReplacement (Inr fooFile) [(''FOO'', ''bar'')] = Inr out \<and>
            sublist ''bar'' out \<and> \<not> sublist ''{{FOO}}'' out"
  proof -
    have "sublist ''bar'' (strings_ReplaceAll fooFile ''{{FOO}}'' ''bar'')"
      using assms(5) by (intro ReplaceAll_contains_new) simp_all
    moreover have "\<not> sublist ''{{FOO}}'' (strings_ReplaceAll fooFile ''{{FOO}}'' ''bar'')"
      by (intro ReplaceAll_none_left) simp_all
    ultimately show ?thesis
      by (simp add: handleTemplateReplacement_def)
  qed
  have d: "handleTemplateReplacement (Inr untouched) others = Inr untouched"
  proof -
    have "fold (\<lambda>(oldString, newString) fileString.
             strings_ReplaceAll fileString (''{{'' @ oldString @ ''}}'') newString)
           others untouched = untouched"
      using assms(6)
    proof (induction others)
      case Nil
      then show ?case by simp
    next
      case (Cons kv others)
      obtain k v where kv: "kv = (k, v)"
        by (cases kv)
      with Cons.prems have "\<not> sublist (''{{'' @ k @ ''}}'') untouched"
        by simp
      then have "strings_ReplaceAll untouched (''{{'' @ k @ ''}}'') v = untouched"
        by (intro ReplaceAll_absent) simp_all
      with Cons kv show ?case
        by simp
    qed
    then show ?thesis
      by (simp add: handleTemplateReplacement_def)
  qed
  from a b o s c d show ?thesis
    by blast
qed

text \<open>
  C6 as stated fails when a value holds the marker of a resolved name: the loop replaces
  \<open>{{FOO}}\<close> first and \<open>{{A}}\<close> after it, and the value of \<open>A\<close> brings \<open>{{FOO}}\<close> back into
  the output.
\<close>

theorem C6_markers_replaced_counterexample:
  "map_of [(''FOO'', ''bar''), (''A'', ''{{FOO}}'')] ''FOO'' = Some ''bar'' \<and>
   sublist ''{{FOO}}'' ''{{FOO}}{{A}}'' \<and>
   handleTemplateReplacement (Inr ''{{FOO}}{{A}}'') [(''FOO'', ''bar''), (''A'', ''{{FOO}}'')] =
     Inr ''bar{{FOO}}'' \<and>
   sublist ''{{FOO}}'' ''bar{{FOO}}''"
  by (simp add: handleTemplateReplacement_def strings_ReplaceAll.simps sublist_Cons_right)

theorem C6_markers_replaced_witness:
  "handleTemplateReplacement (Inr ''limits: {} run: ${{ {{FOO}} }} on {{HOST}} as {{AUTH}}'')
       [(''OPTS'', ''{}''), (''FOO'', ''bar''), (''AUTH'', ''${{ secrets.KEY }}'')] =
     Inr ''limits: {} run: ${{ bar }} on {{HOST}} as ${{ secrets.KEY }}'' \<and>
   sublist ''bar'' ''limits: {} run: ${{ bar }} on {{HOST}} as ${{ secrets.KEY }}'' \<and>
   \<not> sublist ''{{FOO}}'' ''limits: {} run: ${{ bar }} on {{HOST}} as ${{ secrets.KEY }}'' \<and>
   onePass (spelled listenInputs) (render listenTemplate) =
     ''limits: {} listen bar on {{HOST}} as ${{ secrets.KEY }}'' \<and>
   handleTemplateReplacement (Inr ''${{ secrets.TOKEN }}'') [(''PORT'', ''{{PORT}}'')] =
     Inr ''${{ secrets.TOKEN }}''"
proof -
  let ?file = "''limits: {} run: ${{ {{FOO}} }} on {{HOST}} as {{AUTH}}''"
  let ?inputs = "[(''OPTS'', ''{}''), (''FOO'', ''bar''), (''AUTH'', ''${{ secrets.KEY }}'')]"
  let ?out = "''limits: {} run: ${{ bar }} on {{HOST}} as ${{ secrets.KEY }}''"
  have n: "\<forall>(k, v) \<in> set ?inputs. braceFree k"
    by (simp add: braceFree_def)
  have pass: "onePass ?inputs ?file = ?out"
    by (simp add: onePass.simps marker_def)
  have gone: "\<forall>(k, v) \<in> set ?inputs. \<not> sublist (''{{'' @ k @ ''}}'') ?out"
    by (simp add: sublist_Cons_right)
  have cl: "\<forall>(k, v) \<in> set ?inputs. \<not> sublist (''{{'' @ k @ ''}}'') (onePass ?inputs ?file)"
    unfolding pass by (rule gone)
  have t: "plainTemplate listenTemplate"
    by (simp add: plainTemplate_def listenTemplate_def braceFree_def)
  have i: "plainInputs listenInputs"
    by (simp add: plainInputs_def plainTemplate_def listenInputs_def braceFree_def)
  have f: "sublist ''{{FOO}}'' ''x{{FOO}}''"
    by (simp add: sublist_Cons_right)
  have u: "\<forall>(k, v) \<in> set [(''PORT'', ''{{PORT}}'')].
      \<not> sublist (''{{'' @ k @ ''}}'') ''${{ secrets.TOKEN }}''"
    by (simp add: sublist_Cons_right)
  have here: "map_of ?inputs ''FOO'' = Some ''bar'' \<and> sublist (''{{'' @ ''FOO'' @ ''}}'') ?file"
    by (simp add: sublist_Cons_right)
  have l: "spelled listenInputs = ?inputs"
    by (simp add: spelled_def listenInputs_def render_def marker_def)
  have s: "render (map (specSubstitute ?inputs) listenTemplate) =
      ''limits: {} listen bar on {{HOST}} as ${{ secrets.KEY }}''"
    by (simp add: render_def listenTemplate_def marker_def)
  from C6_markers_replaced [OF n cl t i f u]
  have run: "handleTemplateReplacement (Inr ?file) ?inputs = Inr (onePass ?inputs ?file)"
    and present: "\<And>name v. map_of ?inputs name = Some v \<and>
        sublist (''{{'' @ name @ ''}}'') ?file \<Longrightarrow> sublist v (onePass ?inputs ?file)"
    and pieces: "onePass (spelled listenInputs) (render listenTemplate) =
        render (map (specSubstitute (spelled listenInputs)) listenTemplate)"
    and same: "handleTemplateReplacement (Inr ''${{ secrets.TOKEN }}'') [(''PORT'', ''{{PORT}}'')] =
      Inr ''${{ secrets.TOKEN }}''"
    by blast+
  from present [OF here] have "sublist ''bar'' ?out"
    unfolding pass .
  moreover from gone have "\<not> sublist ''{{FOO}}'' ?out"
    by simp
  ultimately show ?thesis
    using run same pieces unfolding pass l s by simp
qed

subsection \<open>Further properties of materialization\<close>

text \<open>
  The scenario of the specification: \<open>PORT\<close> with the default \<open>8080\<close> and its prompt
  disabled, no override, nothing skipped, a template file \<open>listen {{PORT}}\<close>. The resolved
  map is \<open>PORT = 8080\<close> without any prompt, and the file handed to the sink reads
  \<open>listen 8080\<close>.
\<close>

theorem end_to_end_scenario:
  "RunPromptsFromConfigWithSkipsIO listenConfig [] quietConsole =
     (Inr [(''PORT'', ''8080'')], quietConsole) \<and>
   CopyDir (Inr [File ''app.conf'' (Inr ''listen {{PORT}}'')]) ''out'' (Some listenConfig)
       [(''PORT'', ''8080'')] recordingWriter [] =
     (None, [WriteFileCall ''out/app.conf'' ''listen 8080''])"
  by (simp add: RunPromptsFromConfigWithSkipsIO_def listenConfig_def portVar_def
      quietConsole_def GetVariableDefaultValue_def substituteDefaults_def index_def assign_def
      recordingWriter_def handleTemplateReplacement_def checkNameOverrides_def
      strings_ReplaceAll.simps)

text \<open>
  On a directory without subdirectories the two paths do agree: \<open>CopyDirToFileMap\<close> fails
  with the error of \<open>CopyDir\<close>, or returns the map that holds exactly the files that
  \<open>CopyDir\<close> handed to the sink, a later file for a path replacing an earlier one.
\<close>

lemma flat_directory_agrees_loop:
  "flat files \<Longrightarrow> CopyDir_loop files dest config customInputs recordingWriter w = (e, w') \<Longrightarrow>
     \<exists>new. w' = w @ new \<and>
       CopyDirToFileMap_loop files dest config customInputs fileMap =
         (case e of None \<Rightarrow> Inr (storeAll (writtenFiles new) fileMap) | Some err \<Rightarrow> Inl err)"
proof (induction files arbitrary: w fileMap rule: flat.induct)
  case 1
  then show ?case by (simp add: storeAll_def)
next
  case (2 name content rest)
  from "2.prems"(1) have rest: "flat rest"
    by simp
  show ?case
  proof (cases "name = ''draft.yaml''")
    case True
    with "2.prems"(2) have "CopyDir_loop rest dest config customInputs recordingWriter w = (e, w')"
      by simp
    from "2.IH" [OF rest this, of fileMap] True show ?thesis
      by simp
  next
    case False
    show ?thesis
    proof (cases "handleTemplateReplacement content customInputs")
      case (Inl err)
      with False "2.prems"(2) show ?thesis
        by auto
    next
      case (Inr fileString)
      let ?p = "dest @ ''/'' @ checkNameOverrides name config"
      from False Inr "2.prems"(2)
      have "CopyDir_loop rest dest config customInputs recordingWriter
              (w @ [WriteFileCall ?p fileString]) = (e, w')"
        by (simp add: recordingWriter_def)
      from "2.IH" [OF rest this, of "assign ?p fileString fileMap"]
      obtain new where new: "w' = (w @ [WriteFileCall ?p fileString]) @ new"
        and m: "CopyDirToFileMap_loop rest dest config customInputs (assign ?p fileString fileMap) =
          (case e of None \<Rightarrow> Inr (storeAll (writtenFiles new) (assign ?p fileString fileMap))
           | Some err \<Rightarrow> Inl err)"
        by blast
      have "storeAll (writtenFiles (WriteFileCall ?p fileString # new)) fileMap =
          storeAll (writtenFiles new) (assign ?p fileString fileMap)"
        by (simp add: storeAll_def)
      with new m False Inr show ?thesis
        by (intro exI [of _ "WriteFileCall ?p fileString # new"]) (cases e; simp)
    qed
  qed
next
  case (3 name sub rest)
  from "3.prems"(1) have skip: "name = ''draft.yaml''" and rest: "flat rest"
    by simp_all
  with "3.prems"(2) have "CopyDir_loop rest dest config customInputs recordingWriter w = (e, w')"
    by simp
  from "3.IH" [OF rest this, of fileMap] skip show ?case
    by simp
qed

theorem flat_directory_agrees:
  assumes "flat files"
    and "CopyDir (Inr files) dest config customInputs recordingWriter [] = (e, calls)"
  shows "CopyDirToFileMap (Inr files) dest config customInputs =
           (case e of None \<Rightarrow> Inr (storeAll (writtenFiles calls) []) | Some err \<Rightarrow> Inl err)"
  using flat_directory_agrees_loop [OF assms(1), of dest config customInputs "[]" e calls "[]"]
    assms(2)
  by auto

theorem flat_directory_agrees_witness:
  "CopyDir (Inr [File ''a.txt'' (Inr ''A''), File ''b.txt'' (Inr ''{{PORT}}'')]) ''out'' None
       [(''PORT'', ''8080'')] recordingWriter [] =
     (None, [WriteFileCall ''out/a.txt'' ''A'', WriteFileCall ''out/b.txt'' ''8080'']) \<and>
   CopyDirToFileMap (Inr [File ''a.txt'' (Inr ''A''), File ''b.txt'' (Inr ''{{PORT}}'')]) ''out'' None
       [(''PORT'', ''8080'')] = Inr [(''out/a.txt'', ''A''), (''out/b.txt'', ''8080'')]"
proof -
  have f: "flat [File ''a.txt'' (Inr ''A''), File ''b.txt'' (Inr ''{{PORT}}'')]"
    by simp
  have c: "CopyDir (Inr [File ''a.txt'' (Inr ''A''), File ''b.txt'' (Inr ''{{PORT}}'')]) ''out'' None
       [(''PORT'', ''8080'')] recordingWriter [] =
     (None, [WriteFileCall ''out/a.txt'' ''A'', WriteFileCall ''out/b.txt'' ''8080''])"
    by (simp add: recordingWriter_def handleTemplateReplacement_def checkNameOverrides_def
        strings_ReplaceAll.simps)
  from flat_directory_agrees [OF f c] c show ?thesis
    by (simp add: storeAll_def assign_def)
qed

end
